theory Spec2Isabelle
  imports Main "HOL-Library.Word" "HOL-Library.Signed_Division"
begin

section \<open>Machine integers of the target (SAMD21, 32-bit)\<close>

text \<open>
  The sketch is written for the SAMD21 (ARM Cortex-M0+): \<open>int\<close> is a 32-bit two's
  complement integer and \<open>millis()\<close> returns a 32-bit \<open>unsigned long\<close>. Both are
  \<open>32 word\<close>; \<open>+\<close>, \<open>-\<close> and \<open>*\<close> wrap around. Signed comparisons of the source are
  \<open>\<le>s\<close> and \<open><s\<close>, the comparisons on \<open>millis()\<close> are the unsigned \<open>\<le>\<close> and \<open><\<close>.
\<close>

type_synonym int32 = "32 word"
type_synonym uint32 = "32 word"

text \<open>C's \<open>/\<close> and \<open>%\<close> on \<open>int\<close>: the quotient truncates towards zero.\<close>

definition c_div :: "int32 \<Rightarrow> int32 \<Rightarrow> int32" where
  "c_div a b = word_of_int (sint a sdiv sint b)"

definition c_mod :: "int32 \<Rightarrow> int32 \<Rightarrow> int32" where
  "c_mod a b = word_of_int (sint a smod sint b)"

text \<open>
  A store \<open>a[i] = v\<close> into a global array. An index outside the array is undefined
  behaviour in C++ (it overwrites a neighbouring global); the model stops there
  with \<open>None\<close>.
\<close>

definition array_set :: "int32 list \<Rightarrow> int32 \<Rightarrow> int32 \<Rightarrow> int32 list option" where
  "array_set a i v =
     (if 0 \<le> sint i \<and> nat (sint i) < length a then Some (a[nat (sint i) := v]) else None)"

text \<open>The loop \<open>for (int i = 0; i < n; i++) sum += a[i];\<close> entered with \<open>i\<close> and \<open>sum\<close>.\<close>

function sum_loop :: "nat \<Rightarrow> nat \<Rightarrow> int32 list \<Rightarrow> int32 \<Rightarrow> int32" where
  "sum_loop i n a sm = (if i < n then sum_loop (Suc i) n a (sm + a ! i) else sm)"
  by pat_completeness auto
termination
  by (relation "measure (\<lambda>(i, n, a, sm). n - i)") auto

declare sum_loop.simps [simp del]

section \<open>Constants of the sketch\<close>

abbreviation NUM_BASELINE :: int32 where "NUM_BASELINE \<equiv> 5000"
abbreviation SPREAD :: int32 where "SPREAD \<equiv> 63"
abbreviation BASELINE_TIME :: uint32 where "BASELINE_TIME \<equiv> 5000"
abbreviation LIGHT_ON_TIME :: uint32 where "LIGHT_ON_TIME \<equiv> 30000"
abbreviation DEBUG_CLEAR_TIME :: uint32 where "DEBUG_CLEAR_TIME \<equiv> 30000"
abbreviation NUM_MEAS :: int32 where "NUM_MEAS \<equiv> 50"
abbreviation MIN_OVER_THRESHOLD :: int32 where "MIN_OVER_THRESHOLD \<equiv> 3"
abbreviation NUM_LIGHT_STEPS :: int32 where "NUM_LIGHT_STEPS \<equiv> 150"
abbreviation MINUMUM_BRIGHTNESS :: int32 where "MINUMUM_BRIGHTNESS \<equiv> 10"

section \<open>Program state\<close>

text \<open>
  The globals of the sketch and the function-local \<open>static\<close> variables, which live as
  long as the globals do. \<open>touchTime_init\<close> is the guard of the dynamically
  initialised static \<open>touchTime\<close> of \<open>loop\<close>: its initialiser runs on the first call.
  The serial diagnostics are not part of the state; \<open>debugging\<close> only gates them.
\<close>

record fairy =
  base_readings :: "int32 list"
  base_ct :: int32
  qt_base :: int32
  qt_Threshold :: int32
  touchTime :: int32
  touchTime_init :: bool
  measSet :: "int32 list"
  measCount :: int32
  avgMeasure :: int32
  lastLightMeasure :: int32
  steps :: int32
  direction :: bool

text \<open>The state at reset: zero-initialised arrays and the initialisers of the globals.\<close>

definition boot :: fairy where
  "boot = \<lparr> base_readings = replicate 5000 0, base_ct = 0,
            qt_base = 725, qt_Threshold = 725 + SPREAD,
            touchTime = 0, touchTime_init = False,
            measSet = replicate 50 0, measCount = 0, avgMeasure = 0,
            lastLightMeasure = 0, steps = 0, direction = True \<rparr>"

text \<open>\<open>setup()\<close>: every slot of \<open>base_readings\<close> is set to \<open>qt_base\<close>.\<close>

definition setup_sketch :: "fairy \<Rightarrow> fairy" where
  "setup_sketch s = s\<lparr>base_readings := replicate (length (base_readings s)) (qt_base s)\<rparr>"

section \<open>The baseline estimator\<close>

definition baseAvg :: "int32 \<Rightarrow> fairy \<Rightarrow> (int32 \<times> fairy) option" where
  "baseAvg reading s =
     (let ct = base_ct s + 1 in
      case array_set (base_readings s) (c_mod ct NUM_BASELINE) reading of
        None \<Rightarrow> None
      | Some a \<Rightarrow>
          Some (c_div (sum_loop 0 5000 a 0) NUM_BASELINE,
                s\<lparr>base_ct := ct, base_readings := a\<rparr>))"


section \<open>The proximity averager\<close>

definition addMeasurement :: "int32 \<Rightarrow> fairy \<Rightarrow> (int32 \<times> fairy) option" where
  "addMeasurement measurement s =
     (let ct = measCount s + 1 in
      case array_set (measSet s) (c_mod ct NUM_MEAS) measurement of
        None \<Rightarrow> None
      | Some a \<Rightarrow>
          (let avg = c_div (sum_loop 0 50 a 0) NUM_MEAS
           in Some (avg, s\<lparr>measCount := ct, measSet := a, avgMeasure := avg\<rparr>)))"

section \<open>The light controller\<close>

text \<open>
  \<open>lightAtNear\<close> returns the value it passes to \<open>analogWrite\<close>, if it calls it:
  the near branch writes only when the average is above the baseline too.
\<close>

definition lightAtNear :: "int32 \<Rightarrow> fairy \<Rightarrow> (int32 option \<times> fairy) option" where
  "lightAtNear measurement s =
     (if qt_base s + MIN_OVER_THRESHOLD <s measurement then
        (case addMeasurement measurement s of
           None \<Rightarrow> None
         | Some (avg, s1) \<Rightarrow>
             (let s2 = s1\<lparr>lastLightMeasure := avg - qt_base s1\<rparr>
              in if qt_base s2 + MIN_OVER_THRESHOLD <s avg
                 then Some (Some (lastLightMeasure s2), s2)
                 else Some (None, s2)))
      else
        (case addMeasurement 0 s of
           None \<Rightarrow> None
         | Some (avg, s1) \<Rightarrow>
             (let closingValue = avg - qt_base s1;
                  closingValue = (if lastLightMeasure s1 <s closingValue
                                  then lastLightMeasure s1 else closingValue);
                  closingValue = (if closingValue <s 0 then 0 else closingValue)
              in if qt_base s1 - MIN_OVER_THRESHOLD <s avg
                 then Some (Some closingValue, s1)
                 else Some (Some 0, s1))))"

text \<open>\<open>lightAtStep\<close> returns the value it passes to \<open>analogWrite\<close>.\<close>

definition lightAtStep :: "fairy \<Rightarrow> int32 \<times> fairy" where
  "lightAtStep s =
     (let d = (if NUM_LIGHT_STEPS \<le>s steps s then False else direction s);
          d = (if steps s \<le>s 0 then True else d);
          st = (if d then steps s + 1 else steps s - 1)
      in (c_div ((255 - MINUMUM_BRIGHTNESS) * st) NUM_LIGHT_STEPS + MINUMUM_BRIGHTNESS,
          s\<lparr>steps := st, direction := d\<rparr>))"

text \<open>\<open>checkDebug\<close> returns at once: the debounce and the debug toggle are dead code.\<close>

definition checkDebug :: "int32 \<Rightarrow> fairy \<Rightarrow> fairy" where
  "checkDebug t s = s"

section \<open>The control loop\<close>

text \<open>
  What one pass of \<open>loop()\<close> reads from outside: the sensor and the millisecond
  counter, once for each place that calls \<open>millis()\<close>.
\<close>

record tick =
  qt1 :: int32
  ms_init :: uint32
  ms_touch :: uint32
  ms_settle :: uint32
  ms_mode :: uint32

text \<open>What one pass did with the LED.\<close>

datatype outcome = Settling | Pulsing int32 | ProximityGlow "int32 option"

definition isTouch :: "int32 \<Rightarrow> int32 \<Rightarrow> bool" where
  "isTouch reading baseline = (baseline + SPREAD \<le>s reading)"

definition loop :: "tick \<Rightarrow> fairy \<Rightarrow> (outcome \<times> fairy) option" where
  "loop tk s =
     (let s0 = (if touchTime_init s then s
                else s\<lparr>touchTime := ms_init tk - DEBUG_CLEAR_TIME, touchTime_init := True\<rparr>);
          r = qt1 tk
      in case baseAvg r s0 of
           None \<Rightarrow> None
         | Some (b, s1) \<Rightarrow>
             (let s2 = s1\<lparr>qt_base := b, qt_Threshold := b + SPREAD\<rparr>;
                  s3 = (if isTouch r (qt_base s2)
                        then (checkDebug (touchTime s2) s2)\<lparr>touchTime := ms_touch tk\<rparr>
                        else s2)
              in if ms_settle tk < BASELINE_TIME then Some (Settling, s3)
                 else if ms_mode tk - touchTime s3 < LIGHT_ON_TIME
                 then (case lightAtStep s3 of (w, s4) \<Rightarrow> Some (Pulsing w, s4))
                 else (case lightAtNear r s3 of
                         None \<Rightarrow> None
                       | Some (w, s4) \<Rightarrow> Some (ProximityGlow w, s4))))"

text \<open>
  The first half of one pass, up to the test of the settling window, written out on
  its own (\<open>loop_word\<close> below proves that \<open>loop\<close> goes through it): the static
  initialiser, \<open>baseAvg\<close>, the threshold and the touch test.
\<close>

definition sampled :: "tick \<Rightarrow> fairy \<Rightarrow> fairy" where
  "sampled tk s =
     (let s0 = (if touchTime_init s then s
                else s\<lparr>touchTime := ms_init tk - DEBUG_CLEAR_TIME, touchTime_init := True\<rparr>);
          a = (base_readings s)[nat ((sint (base_ct s) + 1) mod 5000) := qt1 tk];
          b = c_div (sum_list a) NUM_BASELINE;
          s2 = s0\<lparr>base_ct := base_ct s + 1, base_readings := a,
                 qt_base := b, qt_Threshold := b + SPREAD\<rparr>
      in if isTouch (qt1 tk) b then s2\<lparr>touchTime := ms_touch tk\<rparr> else s2)"

text \<open>Consecutive passes of \<open>loop()\<close>, with what each did.\<close>

fun run :: "tick list \<Rightarrow> fairy \<Rightarrow> (outcome list \<times> fairy) option" where
  "run [] s = Some ([], s)"
| "run (tk # tks) s =
     (case loop tk s of
        None \<Rightarrow> None
      | Some (out, s1) \<Rightarrow>
          (case run tks s1 of
             None \<Rightarrow> None
           | Some (outs, s2) \<Rightarrow> Some (out # outs, s2)))"

text \<open>Whether some pass of a run detects a touch: the touch test of a pass compares
  the reading with the baseline that pass has just computed.\<close>

fun touched :: "tick list \<Rightarrow> fairy \<Rightarrow> bool" where
  "touched [] s = False"
| "touched (tk # tks) s =
     (case loop tk s of
        None \<Rightarrow> False
      | Some (out, s1) \<Rightarrow> isTouch (qt1 tk) (qt_base s1) \<or> touched tks s1)"

text \<open>Both buffers have their length and both call counters are between 0 and \<open>n\<close>.\<close>

definition counted :: "nat \<Rightarrow> fairy \<Rightarrow> bool" where
  "counted n s \<longleftrightarrow>
     length (base_readings s) = 5000 \<and> length (measSet s) = 50
     \<and> 0 \<le> sint (base_ct s) \<and> sint (base_ct s) \<le> int n
     \<and> 0 \<le> sint (measCount s) \<and> sint (measCount s) \<le> int n"

text \<open>Consecutive calls of \<open>lightAtStep\<close>: the state after \<open>n\<close> calls, and the
  brightness the call after them writes.\<close>

fun after_steps :: "nat \<Rightarrow> fairy \<Rightarrow> fairy" where
  "after_steps 0 s = s"
| "after_steps (Suc n) s = snd (lightAtStep (after_steps n s))"

definition pulse_written :: "nat \<Rightarrow> fairy \<Rightarrow> int32" where
  "pulse_written n s = fst (lightAtStep (after_steps (n - 1) s))"

text \<open>The triangle the step counter follows from a fresh pulse state: up for 150
  calls, down for 150 calls, with period 300.\<close>

definition tri :: "nat \<Rightarrow> nat" where
  "tri n = (let m = n mod 300 in if m \<le> 150 then m else 300 - m)"

section \<open>Runs at a fixed cadence\<close>

text \<open>The \<open>k\<close>-th pass of a loop that runs every 10 ms from power-up: every
  \<open>millis()\<close> of the pass reads \<open>10 * k\<close>.\<close>

definition clock :: "nat \<Rightarrow> uint32" where
  "clock k = of_nat (10 * k)"

definition pass_at :: "int32 \<Rightarrow> nat \<Rightarrow> tick" where
  "pass_at r k = \<lparr>qt1 = r, ms_init = clock k, ms_touch = clock k,
                   ms_settle = clock k, ms_mode = clock k\<rparr>"

text \<open>A run whose baseline drifts down while the proximity buffer keeps its readings:
  5 s of power-up at the seed value, 49 passes with a finger near (787), one touch
  (1000), 2999 passes reading 0 while the LED pulses, then a pass reading 320.\<close>

definition drift_trace :: "tick list" where
  "drift_trace =
     map (pass_at 725) [0..<500] @ map (pass_at 787) [500..<549] @ [pass_at 1000 549]
     @ map (pass_at 0) [550..<3549] @ [pass_at 320 3549]"

section \<open>Summaries of a state\<close>

text \<open>A state that has made \<open>c\<close> passes and whose baseline buffer still holds the seed
  725 in every slot after slot \<open>c\<close>; \<open>B\<close> is the sum of the buffer.\<close>

definition seeded :: "nat \<Rightarrow> int \<Rightarrow> fairy \<Rightarrow> bool" where
  "seeded c B s \<longleftrightarrow>
     length (base_readings s) = 5000 \<and> sint (base_ct s) = int c
     \<and> (\<forall>i. c < i \<and> i < 5000 \<longrightarrow> base_readings s ! i = 725)
     \<and> sint (sum_list (base_readings s)) = B"

text \<open>The part of a state the light control depends on: the baseline as above, the
  proximity buffer \<open>M\<close> and its call count \<open>mc\<close>, the last light value \<open>L\<close> and the
  touch timestamp \<open>T\<close>.\<close>

definition snapshot :: "nat \<Rightarrow> int \<Rightarrow> int32 list \<Rightarrow> nat \<Rightarrow> int32 \<Rightarrow> uint32 \<Rightarrow> fairy \<Rightarrow> bool" where
  "snapshot c B M mc L T s \<longleftrightarrow>
     seeded c B s \<and> measSet s = M \<and> length M = 50 \<and> sint (measCount s) = int mc
     \<and> lastLightMeasure s = L \<and> touchTime s = T \<and> touchTime_init s"


section \<open>Signed 32-bit arithmetic that does not overflow\<close>


lemma sint_of_int_small:
  "- (2 ^ 31) \<le> k \<Longrightarrow> k < 2 ^ 31 \<Longrightarrow> sint (word_of_int k :: int32) = k"
  by (simp add: sint_sbintrunc' signed_take_bit_int_eq_self)

lemma sint_add_small:
  "- (2 ^ 31) \<le> sint a + sint b \<Longrightarrow> sint a + sint b < 2 ^ 31 \<Longrightarrow>
   sint (a + b :: int32) = sint a + sint b"
  by (simp add: sint_word_ariths signed_take_bit_int_eq_self)

lemma sint_sub_small:
  "- (2 ^ 31) \<le> sint a - sint b \<Longrightarrow> sint a - sint b < 2 ^ 31 \<Longrightarrow>
   sint (a - b :: int32) = sint a - sint b"
  by (simp add: sint_word_ariths signed_take_bit_int_eq_self)

lemma sint_mult_small:
  "- (2 ^ 31) \<le> sint a * sint b \<Longrightarrow> sint a * sint b < 2 ^ 31 \<Longrightarrow>
   sint (a * b :: int32) = sint a * sint b"
  by (simp add: sint_word_ariths signed_take_bit_int_eq_self)

lemma sint32_bounds: "- (2 ^ 31) \<le> sint (a :: int32)" "sint (a :: int32) < 2 ^ 31"
  using sint_ge [of a] sint_lt [of a] by simp_all

lemma sdiv_nonneg: "0 \<le> a \<Longrightarrow> 0 < b \<Longrightarrow> (a::int) sdiv b = a div b"
  by (simp add: signed_divide_int_def sgn_if)

lemma div_pos_le_self:
  assumes "0 \<le> (a::int)" "0 < b"
  shows "0 \<le> a div b" "a div b \<le> a"
proof -
  show "0 \<le> a div b" using assms by (simp add: pos_imp_zdiv_nonneg_iff)
  have "a div b \<le> a div 1"
    by (rule zdiv_mono2) (use assms in simp_all)
  then show "a div b \<le> a" by simp
qed

lemma sdiv_pos_bounds:
  assumes "0 < (b::int)"
  shows "min a 0 \<le> a sdiv b" "a sdiv b \<le> max a 0"
proof -
  have s: "a sdiv b = (if 0 \<le> a then a div b else - (- a div b))"
    using assms by (simp add: signed_divide_int_def sgn_if)
  have p: "0 \<le> a div b \<and> a div b \<le> a" if "0 \<le> a"
    using div_pos_le_self [OF that assms] by simp
  have n: "0 \<le> - a div b \<and> - a div b \<le> - a" if "\<not> 0 \<le> a"
    using div_pos_le_self [of "- a" b] that assms by simp
  show "min a 0 \<le> a sdiv b"
  proof (cases "0 \<le> a")
    case True then show ?thesis using p s by simp
  next
    case False then show ?thesis using n s by simp
  qed
  show "a sdiv b \<le> max a 0"
  proof (cases "0 \<le> a")
    case True then show ?thesis using p s by simp
  next
    case False then show ?thesis using n s by simp
  qed
qed

lemma sint_c_div:
  assumes "0 < sint b"
  shows "sint (c_div a b) = sint a sdiv sint b"
proof -
  have "min (sint a) 0 \<le> sint a sdiv sint b" "sint a sdiv sint b \<le> max (sint a) 0"
    using sdiv_pos_bounds [OF assms] by simp_all
  moreover have "- (2 ^ 31) \<le> min (sint a) 0" "max (sint a) 0 < 2 ^ 31"
    using sint32_bounds [of a] by simp_all
  ultimately have "- (2 ^ 31) \<le> sint a sdiv sint b" "sint a sdiv sint b < 2 ^ 31"
    by simp_all
  then show ?thesis by (simp add: c_div_def sint_of_int_small)
qed

lemma smod_pos_bounds:
  assumes "0 < (b::int)"
  shows "- b < a smod b" "a smod b < b"
proof -
  define r where "r = \<bar>a\<bar> mod \<bar>b\<bar>"
  have "0 \<le> r" "r < b"
    using assms by (simp_all add: r_def)
  moreover have "a smod b = r \<or> a smod b = - r \<or> a smod b = 0"
    by (simp add: signed_modulo_int_def sgn_if r_def)
  ultimately show "- b < a smod b" "a smod b < b"
    using assms by auto
qed

lemma sint_c_mod:
  assumes "0 < sint b"
  shows "sint (c_mod a b) = sint a smod sint b"
proof -
  have "- (2 ^ 31) \<le> sint a smod sint b" "sint a smod sint b < 2 ^ 31"
    using smod_pos_bounds [OF assms, of "sint a"] sint32_bounds [of b] by linarith+
  then show ?thesis by (simp add: c_mod_def sint_of_int_small)
qed

lemma smod_nonneg: "0 \<le> a \<Longrightarrow> 0 < b \<Longrightarrow> (a::int) smod b = a mod b"
  by (simp add: signed_modulo_int_def sgn_if)

lemma sint_succ:
  assumes "sint (c::int32) < 2 ^ 31 - 1"
  shows "sint (c + 1) = sint c + 1"
proof -
  have "- (2 ^ 31) \<le> sint c" using sint32_bounds(1) [of c] by simp
  then show ?thesis using assms by (simp add: sint_add_small)
qed

section \<open>The pulse animation\<close>

lemma lightAtStep_int:
  assumes "0 \<le> sint (steps s)" "sint (steps s) \<le> 150"
  defines "up \<equiv> sint (steps s) \<le> 0 \<or> (sint (steps s) < 150 \<and> direction s)"
  shows "direction (snd (lightAtStep s)) = up"
    and "sint (steps (snd (lightAtStep s))) = (if up then sint (steps s) + 1 else sint (steps s) - 1)"
    and "sint (fst (lightAtStep s)) = 245 * sint (steps (snd (lightAtStep s))) div 150 + 10"
proof -
  let ?st = "steps (snd (lightAtStep s))"
  show d: "direction (snd (lightAtStep s)) = up"
    using assms by (auto simp add: lightAtStep_def Let_def word_sle_eq up_def)
  show st: "sint ?st = (if up then sint (steps s) + 1 else sint (steps s) - 1)"
    using assms by (auto simp add: lightAtStep_def Let_def word_sle_eq up_def sint_add_small sint_sub_small)
  have r: "0 \<le> sint ?st" "sint ?st \<le> 150"
    using st assms by (auto simp add: up_def split: if_splits)
  have m: "sint (245 * ?st) = 245 * sint ?st"
    using r by (simp add: sint_mult_small)
  have "fst (lightAtStep s) = c_div (245 * ?st) 150 + 10"
    by (simp add: lightAtStep_def Let_def)
  moreover have "sint (c_div (245 * ?st) 150) = 245 * sint ?st div 150"
    using r by (simp add: sint_c_div m sdiv_nonneg)
  moreover have "0 \<le> 245 * sint ?st div 150" "245 * sint ?st div 150 \<le> 245"
    using r by simp_all
  ultimately show "sint (fst (lightAtStep s)) = 245 * sint ?st div 150 + 10"
    by (simp add: sint_add_small)
qed

lemma tri_le: "tri n \<le> 150"
  unfolding tri_def Let_def by (cases "n mod 300 \<le> 150") simp_all

lemma tri_Suc:
  "tri (Suc n) = (if n mod 300 < 150 then tri n + 1 else tri n - 1)"
proof -
  have m: "n mod 300 < 300" by simp
  consider "n mod 300 < 150" | "n mod 300 = 150" | "150 < n mod 300" "n mod 300 < 299" | "n mod 300 = 299"
    using m by linarith
  then show ?thesis
    by cases (simp_all add: tri_def Let_def mod_Suc)
qed

lemma tri_pos: "\<not> n mod 300 < 150 \<Longrightarrow> 0 < tri n"
proof -
  assume a: "\<not> n mod 300 < 150"
  have m: "n mod 300 < 300" by simp
  show ?thesis
  proof (cases "n mod 300 \<le> 150")
    case True then show ?thesis using a by (simp add: tri_def Let_def)
  next
    case False then show ?thesis using m by (simp add: tri_def Let_def)
  qed
qed

lemma tri_zero_iff: "tri n = 0 \<longleftrightarrow> n mod 300 = 0"
proof -
  have m: "n mod 300 < 300" by simp
  show ?thesis
  proof (cases "n mod 300 \<le> 150")
    case True then show ?thesis by (simp add: tri_def Let_def)
  next
    case False then show ?thesis using m by (simp add: tri_def Let_def)
  qed
qed

lemma after_steps_tri:
  assumes "steps s = 0"
  shows "sint (steps (after_steps n s)) = int (tri n)
         \<and> (0 < n \<longrightarrow> direction (after_steps n s) = (0 < n mod 300 \<and> n mod 300 \<le> 150))"
proof (induction n)
  case 0
  show ?case using assms by (simp add: tri_def)
next
  case (Suc n)
  let ?t = "after_steps n s"
  have st: "sint (steps ?t) = int (tri n)" using Suc by simp
  have r: "0 \<le> sint (steps ?t)" "sint (steps ?t) \<le> 150"
    using tri_le [of n] by (simp_all add: st)
  note L = lightAtStep_int [OF r]
  have up: "(sint (steps ?t) \<le> 0 \<or> (sint (steps ?t) < 150 \<and> direction ?t)) = (n mod 300 < 150)"
  proof (cases "n = 0")
    case True
    then show ?thesis using st by (simp add: tri_def)
  next
    case False
    then have d: "direction ?t = (0 < n mod 300 \<and> n mod 300 \<le> 150)" using Suc by simp
    have z: "(int (tri n) \<le> 0) = (n mod 300 = 0)" using tri_zero_iff [of n] by simp
    have m: "n mod 300 < 300" by simp
    have l: "(int (tri n) < 150) = (n mod 300 \<noteq> 150)"
    proof (cases "n mod 300 \<le> 150")
      case True then show ?thesis by (auto simp add: tri_def Let_def)
    next
      case False then show ?thesis using m by (simp add: tri_def Let_def)
    qed
    show ?thesis unfolding st d z l by auto
  qed
  have "sint (steps (after_steps (Suc n) s)) = (if n mod 300 < 150 then int (tri n) + 1 else int (tri n) - 1)"
    using L(2) up st by simp
  then have "sint (steps (after_steps (Suc n) s)) = int (tri (Suc n))"
    using tri_pos [of n] by (cases "n mod 300 < 150") (simp_all add: tri_Suc)
  moreover have "direction (after_steps (Suc n) s) = (n mod 300 < 150)"
    using L(1) up by simp
  moreover have "(n mod 300 < 150) = (0 < Suc n mod 300 \<and> Suc n mod 300 \<le> 150)"
    by (auto simp add: mod_Suc)
  ultimately show ?case by simp
qed


lemma after_steps_range:
  assumes "0 \<le> sint (steps s)" "sint (steps s) \<le> 150"
  shows "0 \<le> sint (steps (after_steps n s)) \<and> sint (steps (after_steps n s)) \<le> 150"
proof (induction n)
  case 0
  show ?case using assms by simp
next
  case (Suc n)
  then have r: "0 \<le> sint (steps (after_steps n s))" "sint (steps (after_steps n s)) \<le> 150"
    by simp_all
  show ?case
    using lightAtStep_int(2) [OF r] r by (auto split: if_splits)
qed

lemma pulse_written_sint:
  assumes "steps s = 0" "0 < n"
  shows "sint (pulse_written n s) = 245 * int (tri n) div 150 + 10"
proof -
  obtain k where k: "n = Suc k" using assms(2) by (cases n) simp_all
  let ?t = "after_steps k s"
  have st: "sint (steps ?t) = int (tri k)" using after_steps_tri [OF assms(1), of k] by simp
  have r: "0 \<le> sint (steps ?t)" "sint (steps ?t) \<le> 150"
    using tri_le [of k] by (simp_all add: st)
  have "sint (fst (lightAtStep ?t)) = 245 * sint (steps (after_steps (Suc k) s)) div 150 + 10"
    using lightAtStep_int(3) [OF r] by simp
  moreover have "sint (steps (after_steps (Suc k) s)) = int (tri (Suc k))"
    using after_steps_tri [OF assms(1), of "Suc k"] by simp
  ultimately show ?thesis by (simp add: pulse_written_def k)
qed

lemma div150_step: "(a::int) div 150 < (a + 245) div 150"
proof -
  have "a div 150 + 1 = (a + 150) div 150" by simp
  also have "\<dots> \<le> (a + 245) div 150" by (rule zdiv_mono1) simp_all
  finally show ?thesis by simp
qed

lemma bright_up:
  assumes "k = j + 1"
  shows "245 * int j div 150 + 10 < 245 * int k div 150 + (10::int)"
proof -
  have "245 * int k = 245 * int j + 245" using assms by simp
  then show ?thesis using div150_step [of "245 * int j"] by simp
qed

lemma tri_period: "tri (n + 300) = tri n"
  by (simp add: tri_def)

text \<open>
  Claim C9. Starting from \<open>steps = 0\<close>, after any number of calls of \<open>lightAtStep\<close>
  the step counter lies in the closed interval from 0 to \<open>NUM_LIGHT_STEPS\<close> (150).
\<close>

theorem lightAtStep_steps_in_range:
  assumes "steps s = 0"
  shows "0 \<le>s steps (after_steps n s) \<and> steps (after_steps n s) \<le>s NUM_LIGHT_STEPS"
proof -
  have "0 \<le> sint (steps s)" "sint (steps s) \<le> 150" using assms by simp_all
  then show ?thesis using after_steps_range [of s n] by (simp add: word_sle_eq)
qed

theorem lightAtStep_steps_in_range_witness:
  "steps (setup_sketch boot) = 0
   \<and> 0 \<le>s steps (after_steps 7 (setup_sketch boot))
   \<and> steps (after_steps 7 (setup_sketch boot)) \<le>s NUM_LIGHT_STEPS"
proof -
  have h: "steps (setup_sketch boot) = 0" by (simp add: setup_sketch_def boot_def)
  show ?thesis using h lightAtStep_steps_in_range [OF h, of 7] by simp
qed

text \<open>
  Claim C4, as the code has it. From a fresh pulse state the first call of
  \<open>lightAtStep\<close> writes 11 and the 150th call writes 255; the 300th call has counted
  back down to \<open>steps = 0\<close> and writes \<open>MINUMUM_BRIGHTNESS\<close>, 10. (The value 11 is
  written by the 299th call and again by the 301st.)
\<close>

theorem pulse_scenario:
  assumes "steps s = 0"
  shows "pulse_written 1 s = 11 \<and> pulse_written 150 s = 255 \<and> pulse_written 300 s = 10"
proof -
  have "sint (pulse_written 1 s) = sint (11 :: int32)"
    using pulse_written_sint [OF assms, of 1] by (simp add: tri_def)
  moreover have "sint (pulse_written 150 s) = sint (255 :: int32)"
    using pulse_written_sint [OF assms, of 150] by (simp add: tri_def)
  moreover have "sint (pulse_written 300 s) = sint (10 :: int32)"
    using pulse_written_sint [OF assms, of 300] by (simp add: tri_def)
  ultimately show ?thesis by (simp only: word_eq_iff_signed [symmetric]) 
qed

theorem pulse_scenario_witness:
  "steps (setup_sketch boot) = 0
   \<and> pulse_written 1 (setup_sketch boot) = 11
   \<and> pulse_written 150 (setup_sketch boot) = 255
   \<and> pulse_written 300 (setup_sketch boot) = 10"
proof -
  have h: "steps (setup_sketch boot) = 0" by (simp add: setup_sketch_def boot_def)
  show ?thesis using h pulse_scenario [OF h] by simp
qed

text \<open>The claim as stated asks for 11 at the 300th call; the sketch writes 10 there.\<close>

theorem pulse_300th_call_counterexample:
  "\<not> (pulse_written 1 (setup_sketch boot) = 11
      \<and> pulse_written 150 (setup_sketch boot) = 255
      \<and> pulse_written 300 (setup_sketch boot) = 11)"
proof -
  have h: "steps (setup_sketch boot) = 0" by (simp add: setup_sketch_def boot_def)
  have "sint (pulse_written 300 (setup_sketch boot)) = 10"
    using pulse_written_sint [OF h, of 300] by (simp add: tri_def)
  then have "pulse_written 300 (setup_sketch boot) \<noteq> 11" by auto
  then show ?thesis by simp
qed

text \<open>
  Claim C5. From a fresh pulse state the values written by consecutive calls of
  \<open>lightAtStep\<close> strictly increase over calls 1 to 150 and strictly decrease over
  calls 150 to 300, all of them between \<open>MINUMUM_BRIGHTNESS\<close> and 255; the sequence
  repeats with period \<open>2 * NUM_LIGHT_STEPS\<close> calls. It is the same for every state
  with \<open>steps = 0\<close>: nothing else of the state, and no sensor reading, enters it.
\<close>

theorem pulse_triangle_wave:
  assumes "steps s = 0"
  shows "(\<forall>n. 1 \<le> n \<and> n < 150 \<longrightarrow> pulse_written n s <s pulse_written (n + 1) s)
       \<and> (\<forall>n. 150 \<le> n \<and> n < 300 \<longrightarrow> pulse_written (n + 1) s <s pulse_written n s)
       \<and> (\<forall>n. 1 \<le> n \<longrightarrow> MINUMUM_BRIGHTNESS \<le>s pulse_written n s \<and> pulse_written n s \<le>s 255)
       \<and> (\<forall>n. 1 \<le> n \<longrightarrow> pulse_written (n + 2 * 150) s = pulse_written n s)
       \<and> (\<forall>s' n. steps s' = 0 \<and> 1 \<le> n \<longrightarrow> pulse_written n s' = pulse_written n s)"
proof (intro conjI allI impI)
  fix n :: nat
  assume n: "1 \<le> n \<and> n < 150"
  then have "tri (n + 1) = tri n + 1" by (simp add: tri_def)
  from bright_up [OF this] show "pulse_written n s <s pulse_written (n + 1) s"
    using n by (simp add: word_sless_alt pulse_written_sint [OF assms])
next
  fix n :: nat
  assume n: "150 \<le> n \<and> n < 300"
  then have "\<not> n mod 300 < 150" by simp
  then have "tri n = tri (n + 1) + 1" using tri_pos [of n] by (simp add: tri_Suc)
  from bright_up [OF this] show "pulse_written (n + 1) s <s pulse_written n s"
    using n by (simp add: word_sless_alt pulse_written_sint [OF assms])
next
  fix n :: nat
  assume n: "1 \<le> n"
  have "0 \<le> 245 * int (tri n) div 150"
    by (simp add: pos_imp_zdiv_nonneg_iff)
  then show "MINUMUM_BRIGHTNESS \<le>s pulse_written n s"
    using n by (simp add: word_sle_eq pulse_written_sint [OF assms])
next
  fix n :: nat
  assume n: "1 \<le> n"
  have "245 * int (tri n) \<le> 245 * 150" using tri_le [of n] by simp
  then have "245 * int (tri n) div 150 \<le> 245 * 150 div 150" by (rule zdiv_mono1) simp
  then show "pulse_written n s \<le>s 255"
    using n by (simp add: word_sle_eq pulse_written_sint [OF assms])
next
  fix n :: nat
  assume n: "1 \<le> n"
  then have "sint (pulse_written (n + 2 * 150) s) = sint (pulse_written n s)"
    using tri_period [of n] by (simp add: pulse_written_sint [OF assms])
  then show "pulse_written (n + 2 * 150) s = pulse_written n s"
    by (simp only: word_eq_iff_signed [symmetric])
next
  fix s' :: fairy and n :: nat
  assume a: "steps s' = 0 \<and> 1 \<le> n"
  then have "sint (pulse_written n s') = sint (pulse_written n s)"
    by (simp add: pulse_written_sint [OF assms] pulse_written_sint [of s'])
  then show "pulse_written n s' = pulse_written n s"
    by (simp only: word_eq_iff_signed [symmetric])
qed

theorem pulse_triangle_wave_witness:
  "steps (setup_sketch boot) = 0
   \<and> pulse_written 2 (setup_sketch boot) <s pulse_written 3 (setup_sketch boot)
   \<and> pulse_written 151 (setup_sketch boot) <s pulse_written 150 (setup_sketch boot)
   \<and> pulse_written 302 (setup_sketch boot) = pulse_written 2 (setup_sketch boot)"
proof -
  have h: "steps (setup_sketch boot) = 0" by (simp add: setup_sketch_def boot_def)
  let ?s = "setup_sketch boot"
  note w = pulse_triangle_wave [OF h]
  have u: "\<forall>n. 1 \<le> n \<and> n < 150 \<longrightarrow> pulse_written n ?s <s pulse_written (n + 1) ?s"
    using w by blast
  have d: "\<forall>n. 150 \<le> n \<and> n < 300 \<longrightarrow> pulse_written (n + 1) ?s <s pulse_written n ?s"
    using w by blast
  have p: "\<forall>n. 1 \<le> n \<longrightarrow> pulse_written (n + 2 * 150) ?s = pulse_written n ?s"
    using w by blast
  have "pulse_written 2 ?s <s pulse_written 3 ?s"
    using u [rule_format, of 2] by simp
  moreover have "pulse_written 151 ?s <s pulse_written 150 ?s"
    using d [rule_format, of 150] by simp
  moreover have "pulse_written 302 ?s = pulse_written 2 ?s"
    using p [rule_format, of 2] by simp
  ultimately show ?thesis using h by simp
qed

section \<open>Touch detection\<close>

text \<open>
  Claim C8. The touch test \<open>reading >= baseline + SPREAD\<close> is monotonic in the
  reading: a reading above one that counts as a touch counts as a touch, for the same
  baseline.
\<close>

theorem isTouch_monotonic:
  assumes "isTouch r1 b" "r1 <s r2"
  shows "isTouch r2 b"
  using assms by (simp add: isTouch_def word_sle_eq word_sless_alt)

theorem isTouch_monotonic_witness:
  "isTouch 800 725 \<and> (800 :: int32) <s 900 \<and> isTouch 900 725"
proof -
  have a: "isTouch 800 725" by (simp add: isTouch_def)
  have b: "(800 :: int32) <s 900" by simp
  show ?thesis using a b isTouch_monotonic [OF a b] by simp
qed

section \<open>The baseline estimator: the mean of the buffer\<close>

lemma sum_loop_eq:
  "n \<le> length a \<Longrightarrow> i \<le> n \<Longrightarrow> sum_loop i n a sm = sm + sum_list (take (n - i) (drop i a))"
proof (induction i n a sm rule: sum_loop.induct)
  case (1 i n a sm)
  show ?case
  proof (cases "i < n")
    case True
    have d: "drop i a = a ! i # drop (Suc i) a"
      using True 1(2) by (simp add: Cons_nth_drop_Suc)
    have n: "n - i = Suc (n - Suc i)" using True by simp
    have t: "take (n - i) (drop i a) = a ! i # take (n - Suc i) (drop (Suc i) a)"
      by (subst d, subst n) simp
    have "sum_loop i n a sm = sum_loop (Suc i) n a (sm + a ! i)"
      using True by (subst sum_loop.simps) simp
    also have "\<dots> = sm + a ! i + sum_list (take (n - Suc i) (drop (Suc i) a))"
      using 1(1) [OF True 1(2)] True by simp
    finally show ?thesis unfolding t by (simp add: add.assoc)
  next
    case False
    then have "i = n" using 1(3) by simp
    then show ?thesis by (subst sum_loop.simps) simp
  qed
qed

lemma sum_loop_all: "length a = n \<Longrightarrow> sum_loop 0 n a 0 = sum_list a"
  using sum_loop_eq [of n a 0 0] by simp

lemma index_next:
  assumes "0 \<le> sint (c::int32)" "sint c < 2 ^ 31 - 1" "n = 5000 \<or> n = 50"
  shows "sint (c_mod (c + 1) n) = (sint c + 1) mod sint n"
    and "0 \<le> sint (c_mod (c + 1) n)" and "sint (c_mod (c + 1) n) < sint n"
proof -
  have p: "0 < sint n" using assms(3) by auto
  have "sint (c_mod (c + 1) n) = (sint c + 1) smod sint n"
    using sint_c_mod [OF p] sint_succ [OF assms(2)] by simp
  then show e: "sint (c_mod (c + 1) n) = (sint c + 1) mod sint n"
    using assms(1) p by (simp add: smod_nonneg)
  show "0 \<le> sint (c_mod (c + 1) n)" unfolding e using p by simp
  show "sint (c_mod (c + 1) n) < sint n" unfolding e using p by simp
qed

lemma array_set_next:
  assumes "0 \<le> sint (c::int32)" "sint c < 2 ^ 31 - 1" "n = 5000 \<or> n = 50"
      and "int (length a) = sint n"
  shows "array_set a (c_mod (c + 1) n) v = Some (a[nat ((sint c + 1) mod sint n) := v])"
  using index_next [OF assms(1-3)] assms(4) by (simp add: array_set_def)

lemma baseAvg_word:
  assumes "length (base_readings s) = 5000" "0 \<le> sint (base_ct s)" "sint (base_ct s) < 2 ^ 31 - 1"
  shows "baseAvg r s =
           Some (c_div (sum_list ((base_readings s)[nat ((sint (base_ct s) + 1) mod 5000) := r])) 5000,
                 s\<lparr>base_ct := base_ct s + 1,
                   base_readings := (base_readings s)[nat ((sint (base_ct s) + 1) mod 5000) := r]\<rparr>)"
proof -
  have "array_set (base_readings s) (c_mod (base_ct s + 1) 5000) r
        = Some ((base_readings s)[nat ((sint (base_ct s) + 1) mod 5000) := r])"
    using array_set_next [OF assms(2,3), of 5000 "base_readings s" r] assms(1) by simp
  then show ?thesis
    using assms(1) by (simp add: baseAvg_def Let_def sum_loop_all)
qed

lemma addMeasurement_word:
  assumes "length (measSet s) = 50" "0 \<le> sint (measCount s)" "sint (measCount s) < 2 ^ 31 - 1"
  shows "addMeasurement m s =
           Some (c_div (sum_list ((measSet s)[nat ((sint (measCount s) + 1) mod 50) := m])) 50,
                 s\<lparr>measCount := measCount s + 1,
                   measSet := (measSet s)[nat ((sint (measCount s) + 1) mod 50) := m],
                   avgMeasure := c_div (sum_list ((measSet s)[nat ((sint (measCount s) + 1) mod 50) := m])) 50\<rparr>)"
proof -
  have "array_set (measSet s) (c_mod (measCount s + 1) 50) m
        = Some ((measSet s)[nat ((sint (measCount s) + 1) mod 50) := m])"
    using array_set_next [OF assms(2,3), of 50 "measSet s" m] assms(1) by simp
  then show ?thesis
    using assms(1) by (simp add: addMeasurement_def Let_def sum_loop_all)
qed

lemma sint_sum_list:
  assumes "\<forall>x\<in>set xs. - 429496 \<le> sint x \<and> sint x \<le> 429496" "length xs \<le> 5000"
  shows "sint (sum_list xs :: int32) = sum_list (map sint xs)
         \<and> \<bar>sum_list (map sint xs)\<bar> \<le> 429496 * int (length xs)"
  using assms
proof (induction xs)
  case Nil
  show ?case by simp
next
  case (Cons x xs)
  then have ih: "sint (sum_list xs) = sum_list (map sint xs)"
      "\<bar>sum_list (map sint xs)\<bar> \<le> 429496 * int (length xs)"
    by simp_all
  have x: "- 429496 \<le> sint x" "sint x \<le> 429496" using Cons.prems by simp_all
  have l: "int (length xs) \<le> 4999" using Cons.prems(2) by simp
  have b: "- 2147480000 \<le> sint x + sint (sum_list xs)" "sint x + sint (sum_list xs) \<le> 2147480000"
    using ih x l by linarith+
  have "sint (x + sum_list xs) = sint x + sint (sum_list xs)"
    by (rule sint_add_small) (use b in simp_all)
  then show ?case using ih x by simp
qed




lemma replicate_5000_words [simp]:
  "sum_list (replicate 5000 (c::int32)) = 5000 * c"
  by (simp add: sum_list_replicate)

lemma sum_list_update_group:
  fixes xs :: "'a::ab_group_add list"
  shows "i < length xs \<Longrightarrow> sum_list (xs[i := v]) = sum_list xs - xs ! i + v"
proof (induction xs arbitrary: i)
  case Nil
  then show ?case by simp
next
  case (Cons x xs)
  then show ?case by (cases i) (simp_all add: algebra_simps)
qed








section \<open>One pass of the control loop\<close>

lemma lightAtStep_frame:
  "snd (lightAtStep s) = s\<lparr>steps := steps (snd (lightAtStep s)), direction := direction (snd (lightAtStep s))\<rparr>"
  by (simp add: lightAtStep_def Let_def)

lemma lightAtNear_word:
  fixes s :: fairy and m :: int32
  assumes "length (measSet s) = 50" "0 \<le> sint (measCount s)" "sint (measCount s) < 2 ^ 31 - 1"
  defines "i \<equiv> nat ((sint (measCount s) + 1) mod 50)"
  defines "near \<equiv> qt_base s + MIN_OVER_THRESHOLD <s m"
  defines "a \<equiv> (measSet s)[i := (if near then m else 0)]"
  defines "avg \<equiv> c_div (sum_list a) NUM_MEAS"
  defines "cv \<equiv> (if lastLightMeasure s <s avg - qt_base s then lastLightMeasure s else avg - qt_base s)"
  shows "lightAtNear m s =
     Some (if near then (if qt_base s + MIN_OVER_THRESHOLD <s avg then Some (avg - qt_base s) else None)
           else Some (if qt_base s - MIN_OVER_THRESHOLD <s avg then (if cv <s 0 then 0 else cv) else 0),
           s\<lparr>measCount := measCount s + 1, measSet := a, avgMeasure := avg,
             lastLightMeasure := (if near then avg - qt_base s else lastLightMeasure s)\<rparr>)"
proof (cases near)
  case True
  then show ?thesis
    using addMeasurement_word [OF assms(1-3), of m]
    unfolding lightAtNear_def near_def a_def avg_def i_def cv_def
    by (simp add: Let_def)
next
  case False
  then show ?thesis
    using addMeasurement_word [OF assms(1-3), of 0]
    unfolding lightAtNear_def near_def a_def avg_def i_def cv_def
    by (simp add: Let_def)
qed


lemma sampled_fields [simp]:
  "base_readings (sampled tk s) = (base_readings s)[nat ((sint (base_ct s) + 1) mod 5000) := qt1 tk]"
  "base_ct (sampled tk s) = base_ct s + 1"
  "qt_base (sampled tk s) = c_div (sum_list (base_readings (sampled tk s))) NUM_BASELINE"
  "qt_Threshold (sampled tk s) = qt_base (sampled tk s) + SPREAD"
  "touchTime (sampled tk s) =
     (if isTouch (qt1 tk) (qt_base (sampled tk s)) then ms_touch tk
      else if touchTime_init s then touchTime s else ms_init tk - DEBUG_CLEAR_TIME)"
  "touchTime_init (sampled tk s) = True"
  "measSet (sampled tk s) = measSet s"
  "measCount (sampled tk s) = measCount s"
  "avgMeasure (sampled tk s) = avgMeasure s"
  "lastLightMeasure (sampled tk s) = lastLightMeasure s"
  "steps (sampled tk s) = steps s"
  "direction (sampled tk s) = direction s"
  by (simp_all add: sampled_def Let_def)

lemma loop_word:
  assumes "length (base_readings s) = 5000" "0 \<le> sint (base_ct s)" "sint (base_ct s) < 2 ^ 31 - 1"
  shows "loop tk s =
     (if ms_settle tk < BASELINE_TIME then Some (Settling, sampled tk s)
      else if ms_mode tk - touchTime (sampled tk s) < LIGHT_ON_TIME
      then Some (Pulsing (fst (lightAtStep (sampled tk s))), snd (lightAtStep (sampled tk s)))
      else (case lightAtNear (qt1 tk) (sampled tk s) of
              None \<Rightarrow> None
            | Some (w, s4) \<Rightarrow> Some (ProximityGlow w, s4)))"
proof -
  let ?s0 = "if touchTime_init s then s
             else s\<lparr>touchTime := ms_init tk - DEBUG_CLEAR_TIME, touchTime_init := True\<rparr>"
  have b: "baseAvg (qt1 tk) ?s0 =
           Some (c_div (sum_list ((base_readings s)[nat ((sint (base_ct s) + 1) mod 5000) := qt1 tk])) 5000,
                 ?s0\<lparr>base_ct := base_ct s + 1,
                   base_readings := (base_readings s)[nat ((sint (base_ct s) + 1) mod 5000) := qt1 tk]\<rparr>)"
    using baseAvg_word [of ?s0 "qt1 tk"] assms by (simp split: if_splits)
  show ?thesis
    unfolding loop_def Let_def b
    by (cases "touchTime_init s") (simp_all add: sampled_def Let_def checkDebug_def case_prod_unfold)
qed

text \<open>
  Claim C7, as the code has it. On a pass during the settling window
  (\<open>millis() < BASELINE_TIME\<close>) the loop returns before any light control: nothing is
  written to the LED, and the proximity buffer, its counter and average, the last light
  value and the pulse state are unchanged. What the pass does change is the baseline
  (buffer, counter, \<open>qt_base\<close>, \<open>qt_Threshold\<close>, as \<open>baseAvg\<close> leaves them) and the
  touch timestamp: the touch test comes before the test of the settling window, so a
  reading at or above the threshold overwrites \<open>touchTime\<close> (and the first pass runs
  its initialiser).
\<close>

theorem settling_tick:
  assumes "length (base_readings s) = 5000" "0 \<le> sint (base_ct s)" "sint (base_ct s) < 2 ^ 31 - 1"
      and "ms_settle tk < BASELINE_TIME"
  shows "\<exists>s'. loop tk s = Some (Settling, s')
           \<and> measSet s' = measSet s \<and> measCount s' = measCount s \<and> avgMeasure s' = avgMeasure s
           \<and> lastLightMeasure s' = lastLightMeasure s \<and> steps s' = steps s \<and> direction s' = direction s
           \<and> (\<exists>b s1. baseAvg (qt1 tk) s = Some (b, s1) \<and> qt_base s' = b
                  \<and> base_readings s' = base_readings s1 \<and> base_ct s' = base_ct s1)
           \<and> qt_Threshold s' = qt_base s' + SPREAD
           \<and> touchTime s' = (if isTouch (qt1 tk) (qt_base s') then ms_touch tk
                             else if touchTime_init s then touchTime s
                             else ms_init tk - DEBUG_CLEAR_TIME)"
proof -
  have "loop tk s = Some (Settling, sampled tk s)"
    using loop_word [OF assms(1-3), of tk] assms(4) by simp
  moreover have "\<exists>b s1. baseAvg (qt1 tk) s = Some (b, s1) \<and> qt_base (sampled tk s) = b
                  \<and> base_readings (sampled tk s) = base_readings s1 \<and> base_ct (sampled tk s) = base_ct s1"
    using baseAvg_word [OF assms(1-3), of "qt1 tk"] by simp
  ultimately show ?thesis by simp
qed

theorem settling_tick_witness:
  "\<exists>s'. loop \<lparr>qt1 = 800, ms_init = 10, ms_touch = 10, ms_settle = 10, ms_mode = 10\<rparr> (setup_sketch boot)
           = Some (Settling, s')
        \<and> steps s' = 0 \<and> measCount s' = 0 \<and> base_ct s' = 1 \<and> touchTime s' = 10"
proof -
  let ?s = "setup_sketch boot"
  let ?tk = "\<lparr>qt1 = 800, ms_init = 10, ms_touch = 10, ms_settle = 10, ms_mode = 10\<rparr>"
  have l: "length (base_readings ?s) = 5000" by (simp add: setup_sketch_def boot_def)
  have c: "0 \<le> sint (base_ct ?s)" "sint (base_ct ?s) < 2 ^ 31 - 1"
    by (simp_all add: setup_sketch_def boot_def)
  have t: "ms_settle ?tk < BASELINE_TIME" by simp
  obtain s' where r: "loop ?tk ?s = Some (Settling, s')"
      "measCount s' = measCount ?s" "steps s' = steps ?s"
      "\<exists>b s1. baseAvg (qt1 ?tk) ?s = Some (b, s1) \<and> qt_base s' = b
                  \<and> base_readings s' = base_readings s1 \<and> base_ct s' = base_ct s1"
      "touchTime s' = (if isTouch (qt1 ?tk) (qt_base s') then ms_touch ?tk
                             else if touchTime_init ?s then touchTime ?s
                             else ms_init ?tk - DEBUG_CLEAR_TIME)"
    using settling_tick [OF l c t] by blast
  have b: "baseAvg 800 ?s = Some (725, ?s\<lparr>base_ct := 1, base_readings := (replicate 5000 725)[1 := 800]\<rparr>)"
    using baseAvg_word [OF l c, of 800]
    by (simp add: setup_sketch_def boot_def sum_list_update_group c_div_def)
  have "qt_base s' = 725" "base_ct s' = 1" using r(4) b by auto
  then show ?thesis using r by (auto simp add: setup_sketch_def boot_def isTouch_def)
qed

text \<open>
  The claim as stated has every other state unchanged. A second pass at 10 ms of
  uptime with a reading of 800 changes the touch timestamp from -30000 to 10.
\<close>

theorem settling_touch_counterexample:
  "map_option (touchTime \<circ> snd)
     (run [\<lparr>qt1 = 725, ms_init = 0, ms_touch = 0, ms_settle = 0, ms_mode = 0\<rparr>] (setup_sketch boot))
     = Some (0 - 30000)
   \<and> map_option fst
     (run [\<lparr>qt1 = 725, ms_init = 0, ms_touch = 0, ms_settle = 0, ms_mode = 0\<rparr>,
           \<lparr>qt1 = 800, ms_init = 10, ms_touch = 10, ms_settle = 10, ms_mode = 10\<rparr>] (setup_sketch boot))
     = Some [Settling, Settling]
   \<and> map_option (touchTime \<circ> snd)
     (run [\<lparr>qt1 = 725, ms_init = 0, ms_touch = 0, ms_settle = 0, ms_mode = 0\<rparr>,
           \<lparr>qt1 = 800, ms_init = 10, ms_touch = 10, ms_settle = 10, ms_mode = 10\<rparr>] (setup_sketch boot))
     = Some 10"
proof -
  let ?s = "setup_sketch boot"
  let ?t1 = "\<lparr>qt1 = 725, ms_init = 0, ms_touch = 0, ms_settle = 0, ms_mode = 0\<rparr>"
  let ?t2 = "\<lparr>qt1 = 800, ms_init = 10, ms_touch = 10, ms_settle = 10, ms_mode = 10\<rparr>"
  have l1: "loop ?t1 ?s = Some (Settling, sampled ?t1 ?s)"
    by (subst loop_word) (simp_all add: setup_sketch_def boot_def)
  have l2: "loop ?t2 (sampled ?t1 ?s) = Some (Settling, sampled ?t2 (sampled ?t1 ?s))"
    by (subst loop_word) (simp_all add: setup_sketch_def boot_def)
  have b1: "qt_base (sampled ?t1 ?s) = 725"
    by (simp add: setup_sketch_def boot_def sum_list_update_group c_div_def)
  have t1: "touchTime (sampled ?t1 ?s) = 0 - 30000"
    unfolding sampled_fields(5) b1 by (simp add: isTouch_def setup_sketch_def boot_def)
  have b2: "qt_base (sampled ?t2 (sampled ?t1 ?s)) = 725"
    by (simp add: setup_sketch_def boot_def sum_list_update_group c_div_def)
  have t2: "touchTime (sampled ?t2 (sampled ?t1 ?s)) = 10"
    unfolding sampled_fields(5) b2 by (simp add: isTouch_def)
  show ?thesis using l1 l2 t1 t2 by simp
qed

section \<open>Runs of the control loop\<close>

lemma lightAtNear_total:
  assumes "length (measSet s) = 50" "0 \<le> sint (measCount s)" "sint (measCount s) < 2 ^ 31 - 1"
  shows "\<exists>w s'. lightAtNear m s = Some (w, s') \<and> length (measSet s') = 50
           \<and> measCount s' = measCount s + 1
           \<and> base_readings s' = base_readings s \<and> base_ct s' = base_ct s
           \<and> qt_base s' = qt_base s \<and> qt_Threshold s' = qt_Threshold s
           \<and> touchTime s' = touchTime s \<and> touchTime_init s' = touchTime_init s
           \<and> steps s' = steps s \<and> direction s' = direction s"
  unfolding lightAtNear_word [OF assms] using assms(1) by simp

lemma lightAtStep_fields:
  "base_readings (snd (lightAtStep s)) = base_readings s"
  "base_ct (snd (lightAtStep s)) = base_ct s"
  "qt_base (snd (lightAtStep s)) = qt_base s"
  "qt_Threshold (snd (lightAtStep s)) = qt_Threshold s"
  "touchTime (snd (lightAtStep s)) = touchTime s"
  "touchTime_init (snd (lightAtStep s)) = touchTime_init s"
  "measSet (snd (lightAtStep s)) = measSet s"
  "measCount (snd (lightAtStep s)) = measCount s"
  "avgMeasure (snd (lightAtStep s)) = avgMeasure s"
  "lastLightMeasure (snd (lightAtStep s)) = lastLightMeasure s"
  by (simp_all add: lightAtStep_def Let_def)

lemma loop_total:
  assumes "counted n s" "n < 2147483646"
  shows "\<exists>out s'. loop tk s = Some (out, s') \<and> counted (Suc n) s'
           \<and> base_readings s' = base_readings (sampled tk s) \<and> base_ct s' = base_ct s + 1
           \<and> qt_base s' = qt_base (sampled tk s) \<and> qt_Threshold s' = qt_base s' + SPREAD
           \<and> touchTime s' = touchTime (sampled tk s) \<and> touchTime_init s'
           \<and> ((\<exists>w. out = Pulsing w)
                \<longleftrightarrow> \<not> ms_settle tk < BASELINE_TIME \<and> ms_mode tk - touchTime (sampled tk s) < LIGHT_ON_TIME)
           \<and> ((\<forall>w. out \<noteq> Pulsing w) \<longrightarrow> steps s' = steps s \<and> direction s' = direction s)"
proof -
  have b: "length (base_readings s) = 5000" "0 \<le> sint (base_ct s)" "sint (base_ct s) < 2 ^ 31 - 1"
    using assms by (simp_all add: counted_def)
  have m: "length (measSet s) = 50" "0 \<le> sint (measCount s)" "sint (measCount s) < 2 ^ 31 - 1"
    using assms by (simp_all add: counted_def)
  have sc: "sint (base_ct s + 1) = sint (base_ct s) + 1" using sint_succ [OF b(3)] .
  have sm: "sint (measCount s + 1) = sint (measCount s) + 1" using sint_succ [OF m(3)] .
  have c0: "counted (Suc n) (sampled tk s)"
    using assms sc by (simp add: counted_def)
  note L = loop_word [OF b, of tk]
  consider (settle) "ms_settle tk < BASELINE_TIME"
    | (pulse) "\<not> ms_settle tk < BASELINE_TIME" "ms_mode tk - touchTime (sampled tk s) < LIGHT_ON_TIME"
    | (glow) "\<not> ms_settle tk < BASELINE_TIME" "\<not> ms_mode tk - touchTime (sampled tk s) < LIGHT_ON_TIME"
    by blast
  then show ?thesis
  proof cases
    case settle
    then have "loop tk s = Some (Settling, sampled tk s)" using L by simp
    then show ?thesis using c0 settle by simp
  next
    case pulse
    let ?s' = "snd (lightAtStep (sampled tk s))"
    have l: "loop tk s = Some (Pulsing (fst (lightAtStep (sampled tk s))), ?s')"
      using L pulse by simp
    have "counted (Suc n) ?s'"
      using c0 by (simp add: counted_def lightAtStep_fields)
    then show ?thesis using l pulse by (simp add: lightAtStep_fields)
  next
    case glow
    let ?t = "sampled tk s"
    have mt: "length (measSet ?t) = 50" "0 \<le> sint (measCount ?t)" "sint (measCount ?t) < 2 ^ 31 - 1"
      using m by simp_all
    obtain w s' where n: "lightAtNear (qt1 tk) ?t = Some (w, s')" "length (measSet s') = 50"
        "measCount s' = measCount ?t + 1"
        "base_readings s' = base_readings ?t" "base_ct s' = base_ct ?t"
        "qt_base s' = qt_base ?t" "qt_Threshold s' = qt_Threshold ?t"
        "touchTime s' = touchTime ?t" "touchTime_init s' = touchTime_init ?t"
        "steps s' = steps ?t" "direction s' = direction ?t"
      using lightAtNear_total [OF mt, of "qt1 tk"] by blast
    have l: "loop tk s = Some (ProximityGlow w, s')" using L glow n(1) by simp
    have "counted (Suc n) s'"
      using c0 sm n assms(1) by (simp add: counted_def)
    then show ?thesis using l glow n by simp
  qed
qed

lemma elapsed_no_wrap:
  fixes d :: uint32
  assumes "d < 4294937296"
  shows "\<not> d + 30000 < 30000"
proof -
  have "unat d < 4294937296" using assms by (simp add: word_less_nat_alt)
  then have "unat (d + 30000) = unat d + 30000"
    by (simp add: unat_word_ariths)
  then show ?thesis by (simp add: word_less_nat_alt)
qed

lemma elapsed_since_init:
  fixes t t0 :: uint32
  assumes "t - t0 < 4294937296"
  shows "\<not> t - (t0 - DEBUG_CLEAR_TIME) < LIGHT_ON_TIME"
proof -
  have e: "t - (t0 - 30000) = (t - t0) + 30000" by simp
  show ?thesis unfolding e by (rule elapsed_no_wrap [OF assms])
qed

lemma run_no_touch:
  assumes "counted n s" "n + length tks < 2147483647" "\<not> touched tks s"
      and "\<forall>tk\<in>set tks. ms_mode tk - t0 < 4294937296"
      and "if touchTime_init s then touchTime s = t0 - DEBUG_CLEAR_TIME
           else (tks \<noteq> [] \<longrightarrow> ms_init (hd tks) = t0)"
  shows "\<exists>outs s'. run tks s = Some (outs, s') \<and> length outs = length tks
           \<and> (\<forall>out\<in>set outs. \<forall>w. out \<noteq> Pulsing w)
           \<and> steps s' = steps s \<and> direction s' = direction s"
  using assms
proof (induction tks arbitrary: s n)
  case Nil
  then show ?case by simp
next
  case (Cons tk tks)
  have n: "n < 2147483646" using Cons.prems(2) by simp
  obtain out s1 where l: "loop tk s = Some (out, s1)" "counted (Suc n) s1"
      "qt_base s1 = qt_base (sampled tk s)"
      "touchTime s1 = touchTime (sampled tk s)" "touchTime_init s1"
      "(\<exists>w. out = Pulsing w)
        \<longleftrightarrow> \<not> ms_settle tk < BASELINE_TIME \<and> ms_mode tk - touchTime (sampled tk s) < LIGHT_ON_TIME"
      "(\<forall>w. out \<noteq> Pulsing w) \<longrightarrow> steps s1 = steps s \<and> direction s1 = direction s"
    using loop_total [OF Cons.prems(1) n, of tk] by blast
  have nt: "\<not> isTouch (qt1 tk) (qt_base (sampled tk s))" "\<not> touched tks s1"
    using Cons.prems(3) l(1,3) by simp_all
  have tt: "touchTime (sampled tk s) = t0 - DEBUG_CLEAR_TIME"
    using nt(1) Cons.prems(5) by (simp split: if_splits)
  have "\<not> ms_mode tk - touchTime (sampled tk s) < LIGHT_ON_TIME"
    unfolding tt by (rule elapsed_since_init) (use Cons.prems(4) in simp)
  then have np: "\<forall>w. out \<noteq> Pulsing w" using l(6) by blast
  then have st: "steps s1 = steps s" "direction s1 = direction s" using l(7) by simp_all
  have "\<exists>outs s'. run tks s1 = Some (outs, s') \<and> length outs = length tks
           \<and> (\<forall>out\<in>set outs. \<forall>w. out \<noteq> Pulsing w)
           \<and> steps s' = steps s1 \<and> direction s' = direction s1"
    by (rule Cons.IH [of "Suc n"]) (use Cons.prems l tt nt in simp_all)
  then show ?case using l(1) np st by auto
qed

lemma first_pass_725:
  fixes t :: uint32
  defines "tk \<equiv> \<lparr>qt1 = 725, ms_init = 0, ms_touch = 0, ms_settle = 0, ms_mode = 0\<rparr>"
  shows "loop tk (setup_sketch boot) = Some (Settling, sampled tk (setup_sketch boot))"
    and "qt_base (sampled tk (setup_sketch boot)) = 725"
    and "touchTime (sampled tk (setup_sketch boot)) = 0 - DEBUG_CLEAR_TIME"
    and "counted 1 (sampled tk (setup_sketch boot))"
proof -
  show "loop tk (setup_sketch boot) = Some (Settling, sampled tk (setup_sketch boot))"
    by (subst loop_word) (simp_all add: tk_def setup_sketch_def boot_def)
  show b: "qt_base (sampled tk (setup_sketch boot)) = 725"
    by (simp add: tk_def setup_sketch_def boot_def sum_list_update_group c_div_def)
  show "touchTime (sampled tk (setup_sketch boot)) = 0 - DEBUG_CLEAR_TIME"
    unfolding sampled_fields(5) b by (simp add: tk_def isTouch_def setup_sketch_def boot_def)
  show "counted 1 (sampled tk (setup_sketch boot))"
    by (simp add: counted_def setup_sketch_def boot_def)
qed

lemma second_pass_725:
  fixes t :: uint32
  defines "t1 \<equiv> \<lparr>qt1 = 725, ms_init = 0, ms_touch = 0, ms_settle = 0, ms_mode = 0\<rparr>"
  defines "t2 \<equiv> \<lparr>qt1 = 725, ms_init = t, ms_touch = t, ms_settle = t, ms_mode = t\<rparr>"
  shows "qt_base (sampled t2 (sampled t1 (setup_sketch boot))) = 725"
    and "touchTime (sampled t2 (sampled t1 (setup_sketch boot))) = 0 - DEBUG_CLEAR_TIME"
proof -
  show b: "qt_base (sampled t2 (sampled t1 (setup_sketch boot))) = 725"
    by (simp add: t1_def t2_def setup_sketch_def boot_def sum_list_update_group c_div_def)
  show "touchTime (sampled t2 (sampled t1 (setup_sketch boot))) = 0 - DEBUG_CLEAR_TIME"
    unfolding sampled_fields(5) b
    by (simp add: t1_def t2_def isTouch_def setup_sketch_def boot_def sum_list_update_group c_div_def)
qed

lemma two_passes_no_touch:
  fixes t :: uint32
  defines "t1 \<equiv> \<lparr>qt1 = 725, ms_init = 0, ms_touch = 0, ms_settle = 0, ms_mode = 0\<rparr>"
  defines "t2 \<equiv> \<lparr>qt1 = 725, ms_init = t, ms_touch = t, ms_settle = t, ms_mode = t\<rparr>"
  shows "\<not> touched [t1, t2] (setup_sketch boot)"
proof -
  let ?s1 = "sampled t1 (setup_sketch boot)"
  have l1: "loop t1 (setup_sketch boot) = Some (Settling, ?s1)"
    using first_pass_725(1) by (simp add: t1_def)
  have c1: "counted 1 ?s1" using first_pass_725(4) by (simp add: t1_def)
  obtain out s2 where l2: "loop t2 ?s1 = Some (out, s2)" "qt_base s2 = qt_base (sampled t2 ?s1)"
    using loop_total [OF c1, of t2] by auto
  have b1: "qt_base ?s1 = 725" using first_pass_725(2) by (simp add: t1_def)
  have b2: "qt_base s2 = 725" using l2(2) second_pass_725(1) [of t] by (simp add: t1_def t2_def)
  have q: "qt1 t1 = 725" "qt1 t2 = 725" by (simp_all add: t1_def t2_def)
  show ?thesis using l1 l2(1) b1 b2 q by (simp add: isTouch_def)
qed

text \<open>
  Claim C10, as the code has it. The first pass sets the touch timestamp 30000 ms
  before its own \<open>millis()\<close>. If no pass of a run detects a touch, then on every pass
  whose \<open>millis()\<close> is less than \<open>2^32 - 30000\<close> ms after that of the first pass the
  elapsed-time test \<open>millis() - touchTime < LIGHT_ON_TIME\<close> fails: no pass calls
  \<open>lightAtStep\<close>, and the pulse state stays as it was at reset. The elapsed time is a
  32-bit unsigned difference, so the bound is needed.
\<close>

theorem no_touch_never_pulses:
  assumes "\<not> touched tks (setup_sketch boot)" "length tks < 2147483647"
      and "\<forall>tk\<in>set tks. ms_mode tk - ms_init (hd tks) < 4294937296"
  shows "\<exists>outs s'. run tks (setup_sketch boot) = Some (outs, s') \<and> length outs = length tks
           \<and> (\<forall>out\<in>set outs. \<forall>w. out \<noteq> Pulsing w)
           \<and> steps s' = 0 \<and> direction s'"
proof -
  have c: "counted 0 (setup_sketch boot)"
    by (simp add: counted_def setup_sketch_def boot_def)
  have i: "if touchTime_init (setup_sketch boot)
           then touchTime (setup_sketch boot) = ms_init (hd tks) - DEBUG_CLEAR_TIME
           else (tks \<noteq> [] \<longrightarrow> ms_init (hd tks) = ms_init (hd tks))"
    by (simp add: setup_sketch_def boot_def)
  have "\<exists>outs s'. run tks (setup_sketch boot) = Some (outs, s') \<and> length outs = length tks
           \<and> (\<forall>out\<in>set outs. \<forall>w. out \<noteq> Pulsing w)
           \<and> steps s' = steps (setup_sketch boot) \<and> direction s' = direction (setup_sketch boot)"
    by (rule run_no_touch [OF c _ assms(1) assms(3) i]) (use assms(2) in simp)
  then show ?thesis by (simp add: setup_sketch_def boot_def)
qed

theorem no_touch_never_pulses_witness:
  "\<not> touched [\<lparr>qt1 = 725, ms_init = 0, ms_touch = 0, ms_settle = 0, ms_mode = 0\<rparr>,
                \<lparr>qt1 = 725, ms_init = 6000, ms_touch = 6000, ms_settle = 6000, ms_mode = 6000\<rparr>]
       (setup_sketch boot)
   \<and> (\<exists>outs s'. run [\<lparr>qt1 = 725, ms_init = 0, ms_touch = 0, ms_settle = 0, ms_mode = 0\<rparr>,
                      \<lparr>qt1 = 725, ms_init = 6000, ms_touch = 6000, ms_settle = 6000, ms_mode = 6000\<rparr>]
                   (setup_sketch boot) = Some (outs, s')
        \<and> length outs = 2 \<and> (\<forall>out\<in>set outs. \<forall>w. out \<noteq> Pulsing w) \<and> steps s' = 0 \<and> direction s')"
proof -
  let ?tks = "[\<lparr>qt1 = 725, ms_init = 0, ms_touch = 0, ms_settle = 0, ms_mode = 0\<rparr>,
               \<lparr>qt1 = 725, ms_init = 6000, ms_touch = 6000, ms_settle = 6000, ms_mode = (6000::uint32)\<rparr>]"
  have a: "\<not> touched ?tks (setup_sketch boot)" by (rule two_passes_no_touch)
  have b: "length ?tks < 2147483647" by simp
  have c: "\<forall>tk\<in>set ?tks. ms_mode tk - ms_init (hd ?tks) < 4294937296" by simp
  have l: "length ?tks = 2" by simp
  have "\<exists>outs s'. run ?tks (setup_sketch boot) = Some (outs, s') \<and> length outs = length ?tks
           \<and> (\<forall>out\<in>set outs. \<forall>w. out \<noteq> Pulsing w) \<and> steps s' = 0 \<and> direction s'"
    by (rule no_touch_never_pulses [OF a b c])
  then have "\<exists>outs s'. run ?tks (setup_sketch boot) = Some (outs, s') \<and> length outs = 2
           \<and> (\<forall>out\<in>set outs. \<forall>w. out \<noteq> Pulsing w) \<and> steps s' = 0 \<and> direction s'"
    by (simp only: l)
  then show ?thesis using a by blast
qed

text \<open>
  Without the bound the claim fails: no touch, and a pass \<open>2^32 - 30000\<close> ms after the
  first one (49.7 days of uptime less 30 s) finds an elapsed time of 0 and pulses.
\<close>

theorem no_touch_pulse_counterexample:
  "\<not> touched [\<lparr>qt1 = 725, ms_init = 0, ms_touch = 0, ms_settle = 0, ms_mode = 0\<rparr>,
                \<lparr>qt1 = 725, ms_init = 4294937296, ms_touch = 4294937296,
                 ms_settle = 4294937296, ms_mode = 4294937296\<rparr>]
       (setup_sketch boot)
   \<and> map_option fst
        (run [\<lparr>qt1 = 725, ms_init = 0, ms_touch = 0, ms_settle = 0, ms_mode = 0\<rparr>,
              \<lparr>qt1 = 725, ms_init = 4294937296, ms_touch = 4294937296,
               ms_settle = 4294937296, ms_mode = 4294937296\<rparr>]
           (setup_sketch boot))
      = Some [Settling, Pulsing 11]"
proof -
  let ?t1 = "\<lparr>qt1 = 725, ms_init = 0, ms_touch = 0, ms_settle = 0, ms_mode = (0::uint32)\<rparr>"
  let ?t2 = "\<lparr>qt1 = 725, ms_init = 4294937296, ms_touch = 4294937296,
               ms_settle = 4294937296, ms_mode = (4294937296::uint32)\<rparr>"
  let ?s0 = "setup_sketch boot"
  let ?s1 = "sampled ?t1 ?s0"
  let ?s2 = "sampled ?t2 ?s1"
  have a: "\<not> touched [?t1, ?t2] ?s0" by (rule two_passes_no_touch)
  have l1: "loop ?t1 ?s0 = Some (Settling, ?s1)" by (rule first_pass_725(1))
  have tt: "touchTime ?s2 = 0 - DEBUG_CLEAR_TIME" by (rule second_pass_725(2))
  have l2: "loop ?t2 ?s1 = Some (Pulsing (fst (lightAtStep ?s2)), snd (lightAtStep ?s2))"
    by (subst loop_word)
       (simp_all add: setup_sketch_def boot_def sum_list_update_group c_div_def isTouch_def)
  have "fst (lightAtStep ?s2) = 11"
    by (simp add: lightAtStep_def Let_def c_div_def setup_sketch_def boot_def)
  then show ?thesis using a l1 l2 by simp
qed

section \<open>A steady baseline, then a touch\<close>

lemma replicate_update_same: "(replicate n x)[i := x] = replicate n x"
  by (induction n arbitrary: i) (auto split: nat.splits)

lemma run_steady:
  assumes "counted n s" "base_readings s = replicate 5000 725" "n + length tks < 2147483647"
      and "\<forall>tk\<in>set tks. qt1 tk = 725"
  shows "\<exists>outs s'. run tks s = Some (outs, s') \<and> \<not> touched tks s
           \<and> counted (n + length tks) s' \<and> base_readings s' = replicate 5000 725
           \<and> sint (base_ct s') = sint (base_ct s) + int (length tks)"
  using assms
proof (induction tks arbitrary: s n)
  case Nil
  then show ?case by simp
next
  case (Cons tk tks)
  have n: "n < 2147483646" using Cons.prems(3) by simp
  have q: "qt1 tk = 725" using Cons.prems(4) by simp
  obtain out s1 where l: "loop tk s = Some (out, s1)" "counted (Suc n) s1"
      "base_readings s1 = base_readings (sampled tk s)" "base_ct s1 = base_ct s + 1"
      "qt_base s1 = qt_base (sampled tk s)"
    using loop_total [OF Cons.prems(1) n, of tk] by blast
  have b: "base_readings s1 = replicate 5000 725"
    using l(3) Cons.prems(2) q by (simp add: replicate_update_same)
  have "qt_base s1 = 725"
    unfolding l(5) sampled_fields(3) l(3) [symmetric] b by (simp add: c_div_def)
  then have nt: "\<not> isTouch (qt1 tk) (qt_base s1)" using q by (simp add: isTouch_def)
  have "sint (base_ct s) < 2 ^ 31 - 1" using Cons.prems(1) n by (simp add: counted_def)
  then have ct: "sint (base_ct s1) = sint (base_ct s) + 1" unfolding l(4) by (rule sint_succ)
  have "\<exists>outs s'. run tks s1 = Some (outs, s') \<and> \<not> touched tks s1
           \<and> counted (Suc n + length tks) s' \<and> base_readings s' = replicate 5000 725
           \<and> sint (base_ct s') = sint (base_ct s1) + int (length tks)"
    by (rule Cons.IH [OF l(2) b]) (use Cons.prems in simp_all)
  then show ?case using l(1) nt ct by auto
qed

text \<open>
  Claim C6. From the seeded state (baseline 725, threshold 788), 5000 passes that
  read 725 leave the buffer as it was and detect no touch, whatever the clock shows;
  the pass after them, reading 800, computes the baseline 725 and the threshold 788,
  detects a touch and overwrites the touch timestamp with the \<open>millis()\<close> it reads
  there.
\<close>

theorem touch_on_tick_5001:
  assumes "length tks = 5000" "\<forall>tk\<in>set tks. qt1 tk = 725" "qt1 tk = 800"
  shows "\<exists>outs s out s'. run tks (setup_sketch boot) = Some (outs, s)
           \<and> \<not> touched tks (setup_sketch boot)
           \<and> loop tk s = Some (out, s')
           \<and> qt_base s' = 725 \<and> qt_Threshold s' = 725 + SPREAD
           \<and> isTouch (qt1 tk) (qt_base s') \<and> touchTime s' = ms_touch tk"
proof -
  let ?s0 = "setup_sketch boot"
  have c: "counted 0 ?s0" by (simp add: counted_def setup_sketch_def boot_def)
  have b0: "base_readings ?s0 = replicate 5000 725" by (simp add: setup_sketch_def boot_def)
  have "\<exists>outs s'. run tks ?s0 = Some (outs, s') \<and> \<not> touched tks ?s0
           \<and> counted (0 + length tks) s' \<and> base_readings s' = replicate 5000 725
           \<and> sint (base_ct s') = sint (base_ct ?s0) + int (length tks)"
    by (rule run_steady [OF c b0]) (use assms in simp_all)
  then obtain outs s where r: "run tks ?s0 = Some (outs, s)" "\<not> touched tks ?s0"
      "counted 5000 s" "base_readings s = replicate 5000 725" "sint (base_ct s) = 5000"
    using assms(1) by (auto simp add: setup_sketch_def boot_def)
  obtain out s' where l: "loop tk s = Some (out, s')"
      "qt_base s' = qt_base (sampled tk s)" "qt_Threshold s' = qt_base s' + SPREAD"
      "touchTime s' = touchTime (sampled tk s)"
    using loop_total [OF r(3), of tk] by auto
  have b: "qt_base (sampled tk s) = 725"
    using r(4,5) assms(3) by (simp add: sum_list_update_group c_div_def)
  have t: "isTouch (qt1 tk) 725" using assms(3) by (simp add: isTouch_def)
  have "touchTime (sampled tk s) = ms_touch tk"
    unfolding sampled_fields(5) b using t by simp
  then show ?thesis using r(1,2) l b t by auto
qed

theorem touch_on_tick_5001_witness:
  "\<exists>outs s out s'.
      run (replicate 5000 \<lparr>qt1 = 725, ms_init = 0, ms_touch = 0, ms_settle = 0, ms_mode = 0\<rparr>)
          (setup_sketch boot) = Some (outs, s)
      \<and> loop \<lparr>qt1 = 800, ms_init = 60000, ms_touch = 60000, ms_settle = 60000, ms_mode = 60000\<rparr> s
          = Some (out, s')
      \<and> qt_Threshold s' = 788 \<and> touchTime s' = 60000"
proof -
  let ?tks = "replicate 5000 \<lparr>qt1 = 725, ms_init = 0, ms_touch = 0, ms_settle = 0, ms_mode = (0::uint32)\<rparr>"
  let ?tk = "\<lparr>qt1 = 800, ms_init = 60000, ms_touch = 60000, ms_settle = 60000, ms_mode = (60000::uint32)\<rparr>"
  have a: "length ?tks = 5000" by simp
  have b: "\<forall>tk\<in>set ?tks. qt1 tk = 725" by simp
  have c: "qt1 ?tk = 800" by simp
  show ?thesis using touch_on_tick_5001 [OF a b c] by auto
qed
section \<open>Passes and phases on summarised states\<close>

lemma sampled_seeded:
  assumes "seeded c B s" "c < 4999" "qt1 tk = r" "0 \<le> sint r" "725 \<le> B" "B + sint r < 2 ^ 31"
  shows "seeded (Suc c) (B - 725 + sint r) (sampled tk s)"
    and "qt_base (sampled tk s) = word_of_int ((B - 725 + sint r) div 5000)"
proof -
  let ?a = "base_readings s"
  have l: "length ?a = 5000" and ct: "sint (base_ct s) = int c"
    and fut: "\<forall>i. c < i \<and> i < 5000 \<longrightarrow> ?a ! i = 725" and sm: "sint (sum_list ?a) = B"
    using assms(1) by (simp_all add: seeded_def)
  have i: "nat ((sint (base_ct s) + 1) mod 5000) = Suc c"
    using ct assms(2) by (simp add: nat_add_distrib)
  have a': "base_readings (sampled tk s) = ?a[Suc c := r]"
    using i assms(3) by simp
  have old: "?a ! Suc c = 725" using fut assms(2) by simp
  have s1: "sum_list (?a[Suc c := r]) = sum_list ?a - 725 + r"
    using sum_list_update_group [of "Suc c" ?a r] l assms(2) old by simp
  have b1: "B < 2 ^ 31" using sm sint32_bounds(2) [of "sum_list ?a"] by simp
  have s2: "sint (sum_list ?a - 725) = B - 725"
    using sint_sub_small [of "sum_list ?a" 725] sm assms(5) b1 by simp
  have s3: "sint (sum_list ?a - 725 + r) = B - 725 + sint r"
    using sint_add_small [of "sum_list ?a - 725" r] s2 assms(4,5,6) by simp
  have c2: "sint (base_ct s + 1) = int (Suc c)"
    using sint_succ [of "base_ct s"] ct assms(2) by simp
  show "seeded (Suc c) (B - 725 + sint r) (sampled tk s)"
    unfolding seeded_def a' using l fut c2 s1 s3 by simp
  have nn: "0 \<le> B - 725 + sint r" using assms(4,5) by simp
  have "qt_base (sampled tk s) = c_div (sum_list (?a[Suc c := r])) 5000"
    using a' by simp
  also have "\<dots> = word_of_int ((B - 725 + sint r) sdiv 5000)"
    unfolding s1 c_div_def s3 by simp
  also have "\<dots> = word_of_int ((B - 725 + sint r) div 5000)"
    using nn by (simp add: sdiv_nonneg)
  finally show "qt_base (sampled tk s) = word_of_int ((B - 725 + sint r) div 5000)" .
qed

lemma snapshot_sampled:
  assumes "snapshot c B M mc L T s" "c < 4999" "qt1 tk = r" "0 \<le> sint r" "725 \<le> B"
      and "B + sint r < 2 ^ 31"
  defines "b \<equiv> word_of_int ((B - 725 + sint r) div 5000)"
  shows "snapshot (Suc c) (B - 725 + sint r) M mc L (if isTouch r b then ms_touch tk else T) (sampled tk s)"
    and "qt_base (sampled tk s) = b"
    and "length (base_readings s) = 5000" "0 \<le> sint (base_ct s)" "sint (base_ct s) < 2 ^ 31 - 1"
proof -
  have sd: "seeded c B s" and f: "measSet s = M" "length M = 50" "sint (measCount s) = int mc"
      "lastLightMeasure s = L" "touchTime s = T" "touchTime_init s"
    using assms(1) by (simp_all add: snapshot_def)
  show q: "qt_base (sampled tk s) = b"
    unfolding b_def by (rule sampled_seeded(2) [OF sd assms(2-6)])
  have tt: "touchTime (sampled tk s) = (if isTouch r b then ms_touch tk else T)"
    unfolding sampled_fields(5) q using f(5,6) assms(3) by simp
  show "snapshot (Suc c) (B - 725 + sint r) M mc L (if isTouch r b then ms_touch tk else T) (sampled tk s)"
    unfolding snapshot_def using sampled_seeded(1) [OF sd assms(2-6)] f(1-4) tt by simp
  show "length (base_readings s) = 5000" "0 \<le> sint (base_ct s)" "sint (base_ct s) < 2 ^ 31 - 1"
    using sd assms(2) by (simp_all add: seeded_def)
qed

lemma snapshot_frame:
  assumes "snapshot c B M mc L T t"
      and "base_readings s' = base_readings t" "base_ct s' = base_ct t"
      and "measSet s' = M'" "length M' = 50" "sint (measCount s') = int mc'" "lastLightMeasure s' = L'"
      and "touchTime s' = touchTime t" "touchTime_init s' = touchTime_init t"
  shows "snapshot c B M' mc' L' T s'"
  using assms by (simp add: snapshot_def seeded_def)

lemma quiet_pass:
  assumes "snapshot c B M mc L T s" "c < 4999" "qt1 tk = r" "0 \<le> sint r" "725 \<le> B"
      and "B + sint r < 2 ^ 31"
  defines "b \<equiv> word_of_int ((B - 725 + sint r) div 5000)"
  defines "T' \<equiv> (if isTouch r b then ms_touch tk else T)"
  assumes "ms_settle tk < BASELINE_TIME \<or> ms_mode tk - T' < LIGHT_ON_TIME"
  shows "\<exists>out s'. loop tk s = Some (out, s') \<and> snapshot (Suc c) (B - 725 + sint r) M mc L T' s'
           \<and> qt_base s' = b"
proof -
  define t where "t = sampled tk s"
  have sn: "snapshot (Suc c) (B - 725 + sint r) M mc L T' t" and q: "qt_base t = b"
    and w: "length (base_readings s) = 5000" "0 \<le> sint (base_ct s)" "sint (base_ct s) < 2 ^ 31 - 1"
    using snapshot_sampled [OF assms(1-6)] unfolding t_def T'_def b_def by simp_all
  have tt: "touchTime t = T'" using sn by (simp add: snapshot_def)
  have L: "loop tk s =
     (if ms_settle tk < BASELINE_TIME then Some (Settling, t)
      else if ms_mode tk - touchTime t < LIGHT_ON_TIME
      then Some (Pulsing (fst (lightAtStep t)), snd (lightAtStep t))
      else (case lightAtNear (qt1 tk) t of
              None \<Rightarrow> None
            | Some (w, s4) \<Rightarrow> Some (ProximityGlow w, s4)))"
    unfolding t_def by (rule loop_word [OF w])
  show ?thesis
  proof (cases "ms_settle tk < BASELINE_TIME")
    case True
    then have "loop tk s = Some (Settling, t)" using L by simp
    then show ?thesis using sn q by blast
  next
    case False
    then have p: "ms_mode tk - T' < LIGHT_ON_TIME" using assms(9) by simp
    let ?s' = "snd (lightAtStep t)"
    have l: "loop tk s = Some (Pulsing (fst (lightAtStep t)), ?s')"
      using L False p tt by simp
    have "snapshot (Suc c) (B - 725 + sint r) M mc L T' ?s'"
      by (rule snapshot_frame [OF sn])
         (use sn in \<open>simp_all add: lightAtStep_fields snapshot_def\<close>)
    moreover have "qt_base ?s' = b" using q by (simp add: lightAtStep_fields)
    ultimately show ?thesis using l by blast
  qed
qed

lemma glow_pass:
  fixes M :: "int32 list"
  assumes "snapshot c B M mc L T s" "c < 4999" "qt1 tk = r" "0 \<le> sint r" "725 \<le> B"
      and "B + sint r < 2 ^ 31" "mc < 2147483646"
  defines "b \<equiv> word_of_int ((B - 725 + sint r) div 5000)"
  assumes "\<not> isTouch r b" "\<not> ms_settle tk < BASELINE_TIME" "\<not> ms_mode tk - T < LIGHT_ON_TIME"
  defines "near \<equiv> b + MIN_OVER_THRESHOLD <s r"
  defines "M' \<equiv> M[nat ((int mc + 1) mod 50) := (if near then r else 0)]"
  defines "avg \<equiv> c_div (sum_list M') NUM_MEAS"
  defines "cv \<equiv> (if L <s avg - b then L else avg - b)"
  shows "\<exists>s'. loop tk s =
            Some (ProximityGlow
                    (if near then (if b + MIN_OVER_THRESHOLD <s avg then Some (avg - b) else None)
                     else Some (if b - MIN_OVER_THRESHOLD <s avg then (if cv <s 0 then 0 else cv) else 0)),
                  s')
          \<and> snapshot (Suc c) (B - 725 + sint r) M' (Suc mc) (if near then avg - b else L) T s'
          \<and> qt_base s' = b"
proof -
  define t where "t = sampled tk s"
  have sn: "snapshot (Suc c) (B - 725 + sint r) M mc L T t" and q: "qt_base t = b"
    and w: "length (base_readings s) = 5000" "0 \<le> sint (base_ct s)" "sint (base_ct s) < 2 ^ 31 - 1"
    using snapshot_sampled [OF assms(1-6)] assms(9) unfolding t_def b_def by simp_all
  have f: "measSet t = M" "length M = 50" "sint (measCount t) = int mc"
      "lastLightMeasure t = L" "touchTime t = T"
    using sn by (simp_all add: snapshot_def)
  have m: "length (measSet t) = 50" "0 \<le> sint (measCount t)" "sint (measCount t) < 2 ^ 31 - 1"
    using f assms(7) by simp_all
  have L: "loop tk s =
     (if ms_settle tk < BASELINE_TIME then Some (Settling, t)
      else if ms_mode tk - touchTime t < LIGHT_ON_TIME
      then Some (Pulsing (fst (lightAtStep t)), snd (lightAtStep t))
      else (case lightAtNear (qt1 tk) t of
              None \<Rightarrow> None
            | Some (w, s4) \<Rightarrow> Some (ProximityGlow w, s4)))"
    unfolding t_def by (rule loop_word [OF w])
  define s' where "s' = t\<lparr>measCount := measCount t + 1, measSet := M', avgMeasure := avg,
                          lastLightMeasure := (if near then avg - b else L)\<rparr>"
  have N: "lightAtNear r t =
     Some (if near then (if b + MIN_OVER_THRESHOLD <s avg then Some (avg - b) else None)
           else Some (if b - MIN_OVER_THRESHOLD <s avg then (if cv <s 0 then 0 else cv) else 0), s')"
    unfolding lightAtNear_word [OF m] s'_def near_def M'_def avg_def cv_def q f by simp
  have l: "loop tk s =
     Some (ProximityGlow
             (if near then (if b + MIN_OVER_THRESHOLD <s avg then Some (avg - b) else None)
              else Some (if b - MIN_OVER_THRESHOLD <s avg then (if cv <s 0 then 0 else cv) else 0)), s')"
    using L assms(10,11) f(5) N assms(3) by simp
  have mc': "sint (measCount t + 1) = int (Suc mc)"
    using sint_succ [OF m(3)] f(3) by simp
  have "snapshot (Suc c) (B - 725 + sint r) M' (Suc mc) (if near then avg - b else L) T s'"
    by (rule snapshot_frame [OF sn])
       (use sn f mc' in \<open>simp_all add: s'_def M'_def snapshot_def\<close>)
  moreover have "qt_base s' = b" using q by (simp add: s'_def)
  ultimately show ?thesis using l by blast
qed

lemma run_append:
  "run (xs @ ys) s =
     (case run xs s of
        None \<Rightarrow> None
      | Some (outs, s1) \<Rightarrow>
          (case run ys s1 of
             None \<Rightarrow> None
           | Some (outs', s2) \<Rightarrow> Some (outs @ outs', s2)))"
  by (induction xs arbitrary: s) (auto split: option.splits)

lemma small_word:
  assumes "0 \<le> v" "v < 2 ^ 30" "0 \<le> sint k" "sint k < 2 ^ 30"
  shows "sint (word_of_int v + k :: int32) = v + sint k"
proof -
  have a: "sint (word_of_int v :: int32) = v"
    using assms by (simp add: sint_of_int_small)
  show ?thesis
    using sint_add_small [of "word_of_int v" k] a assms by simp
qed

lemma touch_near_int:
  assumes "0 \<le> v" "v < 2 ^ 30"
  shows "isTouch r (word_of_int v) \<longleftrightarrow> v + 63 \<le> sint r"
    and "(word_of_int v + MIN_OVER_THRESHOLD <s r) \<longleftrightarrow> v + 3 < sint r"
proof -
  have "sint (word_of_int v + 63 :: int32) = v + 63"
    using small_word [OF assms, of 63] by simp
  then show "isTouch r (word_of_int v) \<longleftrightarrow> v + 63 \<le> sint r"
    by (simp add: isTouch_def word_sle_eq)
  have "sint (word_of_int v + 3 :: int32) = v + 3"
    using small_word [OF assms, of 3] by simp
  then show "(word_of_int v + MIN_OVER_THRESHOLD <s r) \<longleftrightarrow> v + 3 < sint r"
    by (simp add: word_sless_alt)
qed

lemma quiet_phase:
  assumes "snapshot c B M mc L T s"
      and "\<forall>tk\<in>set tks. qt1 tk = r \<and> (ms_settle tk < BASELINE_TIME \<or> ms_mode tk - T < LIGHT_ON_TIME)"
      and "sint r = 725 - d" "0 \<le> d" "d \<le> 725"
      and "c + length tks \<le> 4999"
      and "725 + int (length tks) * d \<le> B" "B < 2 ^ 30"
      and "sint r < (B - int (length tks) * d) div 5000 + 63"
  shows "\<exists>outs s'. run tks s = Some (outs, s') \<and> length outs = length tks
           \<and> snapshot (c + length tks) (B - int (length tks) * d) M mc L T s'"
  using assms(1,2,6,7,8,9)
proof (induction tks arbitrary: s c B)
  case Nil
  then show ?case by simp
next
  case (Cons tk tks)
  let ?n = "int (length tks)"
  have nd: "0 \<le> ?n * d" using assms(4) by simp
  have e: "int (length (tk # tks)) * d = ?n * d + d" by (simp add: algebra_simps)
  have B1: "725 + ?n * d + d \<le> B" using Cons.prems(4) unfolding e by simp
  let ?B' = "B - 725 + sint r"
  have B': "?B' = B - d" using assms(3) by simp
  have q: "qt1 tk = r" "ms_settle tk < BASELINE_TIME \<or> ms_mode tk - T < LIGHT_ON_TIME"
    using Cons.prems(2) by simp_all
  have r0: "0 \<le> sint r" using assms(3,5) by simp
  have p1: "0 \<le> B - d" using B1 nd assms(4) by linarith
  have p2: "B - d < 2 ^ 30" using Cons.prems(5) assms(4) by linarith
  have "(B - d) div 5000 \<le> B - d" using div_pos_le_self(2) [OF p1, of 5000] by simp
  then have v: "0 \<le> ?B' div 5000" "?B' div 5000 < 2 ^ 30"
    unfolding B' using p1 p2 by (simp_all add: pos_imp_zdiv_nonneg_iff)
  have "(B - (?n * d + d)) div 5000 \<le> ?B' div 5000"
    unfolding B' by (rule zdiv_mono1) (use nd in simp_all)
  then have "sint r < ?B' div 5000 + 63" using Cons.prems(6) unfolding e by linarith
  then have nt: "\<not> isTouch r (word_of_int (?B' div 5000))"
    using touch_near_int(1) [OF v, of r] by simp
  have c1: "c < 4999" using Cons.prems(3) by simp
  have b725: "725 \<le> B" using B1 nd assms(4) by linarith
  have bsum: "B + sint r < 2 ^ 31" using Cons.prems(5) assms(3,4) by simp
  have qm: "ms_settle tk < BASELINE_TIME
            \<or> ms_mode tk - (if isTouch r (word_of_int (?B' div 5000)) then ms_touch tk else T) < LIGHT_ON_TIME"
    using q(2) nt by simp
  have "\<exists>out s'. loop tk s = Some (out, s')
          \<and> snapshot (Suc c) ?B' M mc L
               (if isTouch r (word_of_int (?B' div 5000)) then ms_touch tk else T) s'
          \<and> qt_base s' = word_of_int (?B' div 5000)"
    by (rule quiet_pass [OF Cons.prems(1) c1 q(1) r0 b725 bsum qm])
  then obtain out s1 where l: "loop tk s = Some (out, s1)" "snapshot (Suc c) (B - d) M mc L T s1"
    using nt B' by auto
  have "\<exists>outs s'. run tks s1 = Some (outs, s') \<and> length outs = length tks
           \<and> snapshot (Suc c + length tks) (B - d - ?n * d) M mc L T s'"
    by (rule Cons.IH [OF l(2)])
       (use Cons.prems B1 assms(4) in \<open>simp_all add: e algebra_simps\<close>)
  then show ?case using l(1) by (auto simp add: e algebra_simps)
qed

lemma near_phase:
  assumes "snapshot c B M mc L T s"
      and "\<forall>tk\<in>set tks. qt1 tk = r \<and> \<not> ms_settle tk < BASELINE_TIME \<and> \<not> ms_mode tk - T < LIGHT_ON_TIME"
      and "sint r = 725 + e" "0 \<le> e" "e \<le> 64810"
      and "c + length tks \<le> 4999" "mc + length tks < 50"
      and "725 \<le> B" "B + int (length tks) * e < 2 ^ 30"
      and "sint r < B div 5000 + 63"
      and "(B + int (length tks) * e) div 5000 + 3 < sint r"
  shows "\<exists>outs s' L'. run tks s = Some (outs, s') \<and> length outs = length tks
           \<and> snapshot (c + length tks) (B + int (length tks) * e)
                 (take (Suc mc) M @ replicate (length tks) r @ drop (Suc mc + length tks) M)
                 (mc + length tks) L' T s'"
  using assms(1,2,6,7,8,9,10,11)
proof (induction tks arbitrary: s c B M mc L)
  case Nil
  then show ?case by (auto simp add: snapshot_def)
next
  case (Cons tk tks)
  let ?n = "int (length tks)"
  have ne: "0 \<le> ?n * e" using assms(4) by simp
  have ex: "int (length (tk # tks)) * e = ?n * e + e" by (simp add: algebra_simps)
  let ?B' = "B - 725 + sint r"
  have B': "?B' = B + e" using assms(3) by simp
  have q: "qt1 tk = r" "\<not> ms_settle tk < BASELINE_TIME" "\<not> ms_mode tk - T < LIGHT_ON_TIME"
    using Cons.prems(2) by simp_all
  have r0: "0 \<le> sint r" using assms(3,4) by simp
  have c1: "c < 4999" using Cons.prems(3) by simp
  have m1: "mc < 2147483646" "Suc mc < 50" using Cons.prems(4) by simp_all
  have big: "B + ?n * e + e < 2 ^ 30" using Cons.prems(6) unfolding ex by simp
  have b30: "B < 2 ^ 30" "B + e < 2 ^ 30" using big ne assms(4) by linarith+
  have bsum: "B + sint r < 2 ^ 31" using b30 assms(3,5) by simp
  have p1: "0 \<le> B + e" using Cons.prems(5) assms(4) by linarith
  have "(B + e) div 5000 \<le> B + e" using div_pos_le_self(2) [OF p1, of 5000] by simp
  then have v: "0 \<le> ?B' div 5000" "?B' div 5000 < 2 ^ 30"
    unfolding B' using p1 b30 by (simp_all add: pos_imp_zdiv_nonneg_iff)
  have lo: "B div 5000 \<le> ?B' div 5000"
    unfolding B' by (rule zdiv_mono1) (use assms(4) in simp_all)
  have hi: "?B' div 5000 \<le> (B + (?n * e + e)) div 5000"
    unfolding B' by (rule zdiv_mono1) (use ne in simp_all)
  have nt: "\<not> isTouch r (word_of_int (?B' div 5000))"
    using touch_near_int(1) [OF v, of r] lo Cons.prems(7) by simp
  have nr: "word_of_int (?B' div 5000) + MIN_OVER_THRESHOLD <s r"
    using touch_near_int(2) [OF v, of r] hi Cons.prems(8) unfolding ex by simp
  let ?M1 = "M[Suc mc := r]"
  have i: "nat ((int mc + 1) mod 50) = Suc mc" using m1(2) by (simp add: nat_add_distrib)
  obtain s1 L1 where l: "loop tk s = Some (ProximityGlow
        (if word_of_int (?B' div 5000) + MIN_OVER_THRESHOLD <s c_div (sum_list ?M1) NUM_MEAS
         then Some (c_div (sum_list ?M1) NUM_MEAS - word_of_int (?B' div 5000)) else None), s1)"
      "snapshot (Suc c) (B + e) ?M1 (Suc mc) L1 T s1"
    using glow_pass [OF Cons.prems(1) c1 q(1) r0 Cons.prems(5) bsum m1(1) nt q(2,3)] nr
    unfolding i B' by auto
  have lm: "length M = 50" using Cons.prems(1) by (simp add: snapshot_def)
  have "\<exists>outs s' L'. run tks s1 = Some (outs, s') \<and> length outs = length tks
           \<and> snapshot (Suc c + length tks) (B + e + ?n * e)
                 (take (Suc (Suc mc)) ?M1 @ replicate (length tks) r @ drop (Suc (Suc mc) + length tks) ?M1)
                 (Suc mc + length tks) L' T s'"
  proof (rule Cons.IH [OF l(2)])
    show "\<forall>tk\<in>set tks. qt1 tk = r \<and> \<not> ms_settle tk < BASELINE_TIME \<and> \<not> ms_mode tk - T < LIGHT_ON_TIME"
      using Cons.prems(2) by simp
    show "Suc c + length tks \<le> 4999" using Cons.prems(3) by simp
    show "Suc mc + length tks < 50" using Cons.prems(4) by simp
    show "725 \<le> B + e" using Cons.prems(5) assms(4) by simp
    show "B + e + ?n * e < 2 ^ 30" using big by (simp add: algebra_simps)
    show "sint r < (B + e) div 5000 + 63" using lo Cons.prems(7) unfolding B' by linarith
    show "(B + e + ?n * e) div 5000 + 3 < sint r"
      using Cons.prems(8) unfolding ex by (simp add: algebra_simps)
  qed
  then obtain outs s' L' where r: "run tks s1 = Some (outs, s')" "length outs = length tks"
      "snapshot (Suc c + length tks) (B + e + ?n * e)
                 (take (Suc (Suc mc)) ?M1 @ replicate (length tks) r @ drop (Suc (Suc mc) + length tks) ?M1)
                 (Suc mc + length tks) L' T s'"
    by blast
  have t: "take (Suc (Suc mc)) ?M1 = take (Suc mc) M @ [r]"
    using lm m1(2) by (simp add: take_Suc_conv_app_nth)
  have d: "drop (Suc (Suc mc) + length tks) ?M1 = drop (Suc mc + length (tk # tks)) M"
    by simp
  have Me: "take (Suc (Suc mc)) ?M1 @ replicate (length tks) r @ drop (Suc (Suc mc) + length tks) ?M1
            = take (Suc mc) M @ replicate (length (tk # tks)) r @ drop (Suc mc + length (tk # tks)) M"
    unfolding t d by (simp add: replicate_app_Cons_same)
  have Be: "B + e + ?n * e = B + int (length (tk # tks)) * e" unfolding ex by simp
  have ce: "Suc c + length tks = c + length (tk # tks)" "Suc mc + length tks = mc + length (tk # tks)"
    by simp_all
  have "snapshot (c + length (tk # tks)) (B + int (length (tk # tks)) * e)
          (take (Suc mc) M @ replicate (length (tk # tks)) r @ drop (Suc mc + length (tk # tks)) M)
          (mc + length (tk # tks)) L' T s'"
    using r(3) unfolding Me Be ce .
  moreover have "run (tk # tks) s = Some (ProximityGlow
        (if word_of_int (?B' div 5000) + MIN_OVER_THRESHOLD <s c_div (sum_list ?M1) NUM_MEAS
         then Some (c_div (sum_list ?M1) NUM_MEAS - word_of_int (?B' div 5000)) else None) # outs, s')"
    using l(1) r(1) by simp
  ultimately show ?case using r(2) by (intro exI conjI) (assumption | simp)+
qed

lemma pass_at_fields [simp]:
  "qt1 (pass_at r k) = r" "ms_init (pass_at r k) = clock k"
  "ms_touch (pass_at r k) = clock k" "ms_settle (pass_at r k) = clock k"
  "ms_mode (pass_at r k) = clock k"
  by (simp_all add: pass_at_def)

lemma unat_clock:
  assumes "k < 400000000"
  shows "unat (clock k) = 10 * k"
proof -
  have "10 * k < 2 ^ 32" using assms by simp
  then have "(10 * k) mod 2 ^ 32 = 10 * k" by (rule mod_less)
  then show ?thesis by (simp add: clock_def unat_of_nat del: of_nat_mult)
qed

lemma clock_0: "clock 0 = 0"
  by (simp add: clock_def)

lemma settling_at:
  assumes "k < 400000000"
  shows "clock k < BASELINE_TIME \<longleftrightarrow> k < 500"
  using unat_clock [OF assms] by (simp add: word_less_nat_alt)

lemma no_pulse_before_touch:
  assumes "k < 400000000"
  shows "\<not> clock k - (0 - DEBUG_CLEAR_TIME) < LIGHT_ON_TIME"
proof -
  have "clock k - 0 < 4294937296"
    using unat_clock [OF assms] assms by (simp add: word_less_nat_alt)
  then show ?thesis by (rule elapsed_since_init)
qed

lemma pulse_after_touch:
  assumes "j \<le> k" "k < 400000000"
  shows "clock k - clock j < LIGHT_ON_TIME \<longleftrightarrow> k < j + 3000"
proof -
  have "10 * k = 10 * j + 10 * (k - j)" using assms(1) by simp
  then have "(of_nat (10 * k) :: uint32) = of_nat (10 * j) + of_nat (10 * (k - j))"
    by (simp only: of_nat_add)
  then have "clock k - clock j = clock (k - j)"
    unfolding clock_def by simp
  moreover have "unat (clock (k - j)) = 10 * (k - j)"
    by (rule unat_clock) (use assms in simp)
  ultimately show ?thesis using assms(1) by (auto simp add: word_less_nat_alt)
qed

lemma first_pass_snapshot:
  "\<exists>s'. loop (pass_at 725 0) (setup_sketch boot) = Some (Settling, s')
        \<and> snapshot 1 3625000 (replicate 50 0) 0 0 (0 - DEBUG_CLEAR_TIME) s'"
proof -
  let ?s0 = "setup_sketch boot"
  let ?tk = "pass_at 725 0"
  have l: "loop ?tk ?s0 = Some (Settling, sampled ?tk ?s0)"
    by (subst loop_word) (simp_all add: setup_sketch_def boot_def clock_0)
  have b: "qt_base (sampled ?tk ?s0) = 725"
    by (simp add: setup_sketch_def boot_def sum_list_update_group c_div_def)
  have t: "touchTime (sampled ?tk ?s0) = 0 - DEBUG_CLEAR_TIME"
    unfolding sampled_fields(5) b by (simp add: isTouch_def setup_sketch_def boot_def clock_0)
  have a: "base_readings (sampled ?tk ?s0) = replicate 5000 725"
    by (simp add: setup_sketch_def boot_def replicate_update_same)
  have "seeded 1 3625000 (sampled ?tk ?s0)"
    unfolding seeded_def a by (simp add: setup_sketch_def boot_def)
  then have "snapshot 1 3625000 (replicate 50 0) 0 0 (0 - DEBUG_CLEAR_TIME) (sampled ?tk ?s0)"
    unfolding snapshot_def using t by (simp add: setup_sketch_def boot_def)
  then show ?thesis using l by blast
qed

lemma settled_snapshot:
  "\<exists>outs s'. run (map (pass_at 725) [0..<500]) (setup_sketch boot) = Some (outs, s')
        \<and> length outs = 500
        \<and> snapshot 500 3625000 (replicate 50 0) 0 0 (0 - DEBUG_CLEAR_TIME) s'"
proof -
  obtain s1 where f: "loop (pass_at 725 0) (setup_sketch boot) = Some (Settling, s1)"
      "snapshot 1 3625000 (replicate 50 0) 0 0 (0 - DEBUG_CLEAR_TIME) s1"
    using first_pass_snapshot by blast
  let ?tks = "map (pass_at 725) [1..<500]"
  have q: "\<forall>tk\<in>set ?tks. qt1 tk = 725
             \<and> (ms_settle tk < BASELINE_TIME \<or> ms_mode tk - (0 - DEBUG_CLEAR_TIME) < LIGHT_ON_TIME)"
    by (simp add: settling_at del: upt_rec_numeral)
  have len: "length ?tks = 499" by (simp del: upt_rec_numeral)
  have "\<exists>outs s'. run ?tks s1 = Some (outs, s') \<and> length outs = length ?tks
           \<and> snapshot (1 + length ?tks) (3625000 - int (length ?tks) * 0)
                (replicate 50 0) 0 0 (0 - DEBUG_CLEAR_TIME) s'"
    by (rule quiet_phase [OF f(2) q, of 0]) (simp_all add: len)
  then obtain outs s' where r: "run ?tks s1 = Some (outs, s')" "length outs = 499"
      "snapshot 500 3625000 (replicate 50 0) 0 0 (0 - DEBUG_CLEAR_TIME) s'"
    unfolding len by auto
  have u: "[0..<500] = 0 # [1..<500]" by (simp add: upt_conv_Cons del: upt_rec_numeral)
  have "run (map (pass_at 725) [0..<500]) (setup_sketch boot) = Some (Settling # outs, s')"
    unfolding u using f(1) r(1) by simp
  then show ?thesis using r(2,3) by auto
qed

section \<open>The near branch can write more than 255\<close>

lemma drift_near_phase:
  assumes "snapshot 500 3625000 (replicate 50 0) 0 0 (0 - DEBUG_CLEAR_TIME) s"
  shows "\<exists>outs s' L'. run (map (pass_at 787) [500..<549]) s = Some (outs, s')
           \<and> snapshot 549 3628038 (0 # replicate 49 787) 49 L' (0 - DEBUG_CLEAR_TIME) s'"
proof -
  let ?tks = "map (pass_at 787) [500..<549]"
  have len: "length ?tks = 49" by (simp del: upt_rec_numeral)
  have q: "\<forall>tk\<in>set ?tks. qt1 tk = 787 \<and> \<not> ms_settle tk < BASELINE_TIME
             \<and> \<not> ms_mode tk - (0 - DEBUG_CLEAR_TIME) < LIGHT_ON_TIME"
  proof
    fix tk assume "tk \<in> set ?tks"
    then obtain k where k: "tk = pass_at 787 k" "500 \<le> k" "k < 549"
      by (auto simp del: upt_rec_numeral)
    have k4: "k < 400000000" using k(3) by simp
    show "qt1 tk = 787 \<and> \<not> ms_settle tk < BASELINE_TIME
             \<and> \<not> ms_mode tk - (0 - DEBUG_CLEAR_TIME) < LIGHT_ON_TIME"
      unfolding k(1) pass_at_fields
      using settling_at [OF k4] no_pulse_before_touch [OF k4] k(2) by simp
  qed
  have "\<exists>outs s' L'. run ?tks s = Some (outs, s') \<and> length outs = length ?tks
           \<and> snapshot (500 + length ?tks) (3625000 + int (length ?tks) * 62)
                 (take (Suc 0) (replicate 50 0) @ replicate (length ?tks) 787
                    @ drop (Suc 0 + length ?tks) (replicate 50 0))
                 (0 + length ?tks) L' (0 - DEBUG_CLEAR_TIME) s'"
    by (rule near_phase [OF assms q, of 62]) (simp_all add: len)
  then show ?thesis unfolding len by (auto simp del: upt_rec_numeral)
qed

lemma drift_touch_pass:
  assumes "snapshot 549 3628038 M 49 L (0 - DEBUG_CLEAR_TIME) s"
  shows "\<exists>out s'. loop (pass_at 1000 549) s = Some (out, s')
           \<and> snapshot 550 3628313 M 49 L (clock 549) s'"
proof -
  have t: "isTouch 1000 (word_of_int ((3628038 - 725 + sint (1000 :: int32)) div 5000))"
    by (simp add: isTouch_def)
  have "\<exists>out s'. loop (pass_at 1000 549) s = Some (out, s')
          \<and> snapshot (Suc 549) (3628038 - 725 + sint (1000 :: int32)) M 49 L
               (if isTouch 1000 (word_of_int ((3628038 - 725 + sint (1000 :: int32)) div 5000))
                then ms_touch (pass_at 1000 549) else 0 - DEBUG_CLEAR_TIME) s'
          \<and> qt_base s' = word_of_int ((3628038 - 725 + sint (1000 :: int32)) div 5000)"
    by (rule quiet_pass [OF assms]) (simp_all add: isTouch_def)
  then show ?thesis unfolding if_P [OF t] by auto
qed

lemma drift_zero_phase:
  assumes "snapshot 550 3628313 M 49 L (clock 549) s"
  shows "\<exists>outs s'. run (map (pass_at 0) [550..<3549]) s = Some (outs, s')
           \<and> snapshot 3549 1454038 M 49 L (clock 549) s'"
proof -
  let ?tks = "map (pass_at 0) [550..<3549]"
  have len: "length ?tks = 2999" by (simp del: upt_rec_numeral)
  have q: "\<forall>tk\<in>set ?tks. qt1 tk = 0
             \<and> (ms_settle tk < BASELINE_TIME \<or> ms_mode tk - clock 549 < LIGHT_ON_TIME)"
  proof
    fix tk assume "tk \<in> set ?tks"
    then obtain k where k: "tk = pass_at 0 k" "550 \<le> k" "k < 3549"
      by (auto simp del: upt_rec_numeral)
    have k4: "549 \<le> k" "k < 400000000" using k(2,3) by simp_all
    show "qt1 tk = 0
             \<and> (ms_settle tk < BASELINE_TIME \<or> ms_mode tk - clock 549 < LIGHT_ON_TIME)"
      unfolding k(1) pass_at_fields
      using pulse_after_touch [OF k4] k(3) by simp
  qed
  have "\<exists>outs s'. run ?tks s = Some (outs, s') \<and> length outs = length ?tks
           \<and> snapshot (550 + length ?tks) (3628313 - int (length ?tks) * 725) M 49 L (clock 549) s'"
    by (rule quiet_phase [OF assms q, of 725]) (simp_all add: len)
  then show ?thesis unfolding len by (auto simp del: upt_rec_numeral)
qed

lemma drift_final_pass:
  assumes "snapshot 3549 1454038 (0 # replicate 49 787) 49 L (clock 549) s"
  shows "\<exists>s'. loop (pass_at 320 3549) s = Some (ProximityGlow (Some 487), s')"
proof -
  have nt: "\<not> isTouch 320 (word_of_int ((1454038 - 725 + sint (320 :: int32)) div 5000))"
    by (simp add: isTouch_def)
  have ns: "\<not> ms_settle (pass_at 320 3549) < BASELINE_TIME"
    by (simp add: settling_at)
  have np: "\<not> ms_mode (pass_at 320 3549) - clock 549 < LIGHT_ON_TIME"
    by (simp add: pulse_after_touch)
  have m: "(0 # replicate 49 (787 :: int32))[nat ((int 49 + 1) mod 50) := 320] = 320 # replicate 49 787"
    by simp
  show ?thesis
    using glow_pass [OF assms _ _ _ _ _ _ nt ns np]
    by (auto simp add: m sum_list_replicate c_div_def)
qed

text \<open>
  Claim C3 (brightness in byte range), refuted for the near branch of \<open>lightAtNear\<close>:
  the branch passes \<open>avgMeasure - qt_base\<close> to \<open>analogWrite\<close> with no upper clamp.
  On \<open>drift_trace\<close> the proximity buffer holds 49 readings of 787 and the baseline has
  fallen to 290 when a reading of 320 arrives: the buffer average is 777, and the
  last pass of the run writes \<open>777 - 290 = 487\<close>, which is above 255.
\<close>

theorem near_branch_writes_487:
  "map_option (last \<circ> fst) (run drift_trace (setup_sketch boot)) = Some (ProximityGlow (Some 487))"
proof -
  obtain o1 s1 where r1: "run (map (pass_at 725) [0..<500]) (setup_sketch boot) = Some (o1, s1)"
      "snapshot 500 3625000 (replicate 50 0) 0 0 (0 - DEBUG_CLEAR_TIME) s1"
    using settled_snapshot by blast
  obtain o2 s2 L2 where r2: "run (map (pass_at 787) [500..<549]) s1 = Some (o2, s2)"
      "snapshot 549 3628038 (0 # replicate 49 787) 49 L2 (0 - DEBUG_CLEAR_TIME) s2"
    using drift_near_phase [OF r1(2)] by blast
  obtain o3 s3 where r3: "loop (pass_at 1000 549) s2 = Some (o3, s3)"
      "snapshot 550 3628313 (0 # replicate 49 787) 49 L2 (clock 549) s3"
    using drift_touch_pass [OF r2(2)] by blast
  obtain o4 s4 where r4: "run (map (pass_at 0) [550..<3549]) s3 = Some (o4, s4)"
      "snapshot 3549 1454038 (0 # replicate 49 787) 49 L2 (clock 549) s4"
    using drift_zero_phase [OF r3(2)] by blast
  obtain s5 where r5: "loop (pass_at 320 3549) s4 = Some (ProximityGlow (Some 487), s5)"
    using drift_final_pass [OF r4(2)] by blast
  have "run drift_trace (setup_sketch boot)
        = Some (o1 @ o2 @ [o3] @ o4 @ [ProximityGlow (Some 487)], s5)"
    unfolding drift_trace_def
    by (simp add: run_append r1(1) r2(1) r3(1) r4(1) r5 del: upt_rec_numeral)
  then show ?thesis by simp
qed


end
